theory Spec2Isabelle
  imports Main "HOL-Library.Char_ord" "HOL-Library.List_Lexorder" "HOL-Library.Word"
begin

section \<open>Keys, values and configuration\<close>

text \<open>
  Keys and values are byte strings (\<open>std::string\<close>), compared lexicographically byte
  by byte. Byte counts of records and SST ids are \<open>size_t\<close> in the source; they are
  modelled as natural numbers (no run of the engine gets near \<open>2 ^ 64\<close> bytes or ids).
  The target size of a level is the one \<open>size_t\<close> value that the source computes by
  a product that can exceed \<open>2 ^ 64\<close>; that product is computed in 64-bit words.
\<close>

type_synonym kv = "string \<times> string"

text \<open>
  The header \<open>include/consts.h\<close> is not part of the sources at hand, so the tuning
  constants are parameters. \<open>estimated_size\<close> is the byte count an \<open>SSTBuilder\<close>
  reports for the records added so far (the block framing widths are not in the
  sources), and \<open>io_ok\<close> says whether writing the SST file with a given id succeeds.
  \<open>std_pow x y\<close> is the value of \<open>static_cast<size_t>(std::pow(x, y))\<close>, which the C++
  library computes in double-precision floating point; it is a parameter as well.
\<close>

record config =
  LSM_TOL_MEM_SIZE_LIMIT :: nat
  LSM_PER_MEM_SIZE_LIMIT :: nat
  LSM_SST_LEVEL_RATIO :: nat
  estimated_size :: "kv list \<Rightarrow> nat"
  io_ok :: "nat \<Rightarrow> bool"
  std_pow :: "nat \<Rightarrow> nat \<Rightarrow> nat"

datatype error =
    EmptyFrozenList      \<comment> \<open>the panic of \<open>MemTable::flush_last\<close>\<close>
  | NullSst              \<comment> \<open>\<open>ssts[id]\<close> default-inserted a null pointer that is dereferenced\<close>
  | IOFailure            \<comment> \<open>writing an SST file failed\<close>
  | UnboundedRecursion   \<comment> \<open>\<open>full_compact\<close> recursing without end\<close>
  | BadArguments         \<comment> \<open>a command vector indexed beyond its end\<close>

section \<open>Skiplist and MemTable\<close>

text \<open>
  Modelled from the spec: the skiplist (\<open>include/skiplist\<close>, section 4.1) is an ordered
  map; it is represented by its ascending sequence of \<open>(key, value)\<close> pairs, which is
  what \<open>begin()/end()\<close> yield. \<open>put\<close> inserts or overwrites, \<open>get\<close> returns the value
  if present, and the size accumulator is the sum of key and value lengths (as
  \<open>test_skiplist.cpp\<close>, MemorySizeTracking, expects).
\<close>

type_synonym skiplist = "kv list"

fun sl_put :: "skiplist \<Rightarrow> string \<Rightarrow> string \<Rightarrow> skiplist" where
  "sl_put [] k v = [(k, v)]"
| "sl_put ((k', v') # rest) k v =
     (if k < k' then (k, v) # (k', v') # rest
      else if k = k' then (k, v) # rest
      else (k', v') # sl_put rest k v)"

definition sl_get :: "skiplist \<Rightarrow> string \<Rightarrow> string option" where
  "sl_get sl k = map_of sl k"

definition sl_size :: "skiplist \<Rightarrow> nat" where
  "sl_size sl = sum_list (map (\<lambda>(k, v). length k + length v) sl)"

text \<open>
  Modelled from the spec: the MemTable (section 4.2) is one active skiplist and a
  list of frozen ones; \<open>freeze_current\<close> moves the active skiplist to the front of the
  frozen list, so the frozen list runs from newest to oldest and \<open>flush_last\<close> takes
  its last element.
\<close>

record MemTable =
  current_table :: skiplist
  frozen_tables :: "skiplist list"

definition mt_empty :: MemTable where
  "mt_empty = \<lparr>current_table = [], frozen_tables = []\<rparr>"

definition get_total_size :: "MemTable \<Rightarrow> nat" where
  "get_total_size m = sl_size (current_table m) + sum_list (map sl_size (frozen_tables m))"

definition freeze_current :: "MemTable \<Rightarrow> MemTable" where
  "freeze_current m =
     \<lparr>current_table = [], frozen_tables = current_table m # frozen_tables m\<rparr>"

text \<open>
  Modelled from the spec: \<open>put\<close> writes to the active skiplist and freezes it once
  its size has reached the per-memtable watermark (``required when
  \<open>active.size \<ge> per-memtable watermark\<close>'').
\<close>

definition mt_put :: "config \<Rightarrow> MemTable \<Rightarrow> string \<Rightarrow> string \<Rightarrow> MemTable" where
  "mt_put c m k v =
     (let m1 = m\<lparr>current_table := sl_put (current_table m) k v\<rparr>
      in if LSM_PER_MEM_SIZE_LIMIT c \<le> sl_size (current_table m1)
         then freeze_current m1 else m1)"

text \<open>Modelled from the spec: ``\<open>remove(k)\<close>: equivalent to \<open>put(k, "")\<close> -- a tombstone''.\<close>

definition mt_remove :: "config \<Rightarrow> MemTable \<Rightarrow> string \<Rightarrow> MemTable" where
  "mt_remove c m k = mt_put c m k []"

fun frozen_get :: "skiplist list \<Rightarrow> string \<Rightarrow> string option" where
  "frozen_get [] k = None"
| "frozen_get (t # ts) k =
     (case sl_get t k of Some v \<Rightarrow> Some v | None \<Rightarrow> frozen_get ts k)"

text \<open>
  Modelled from the spec: \<open>get\<close> searches the active skiplist first, then the frozen
  ones from newest to oldest, and returns the first hit, an empty value as it is.
\<close>

definition mt_get :: "MemTable \<Rightarrow> string \<Rightarrow> string option" where
  "mt_get m k =
     (case sl_get (current_table m) k of
        Some v \<Rightarrow> Some v
      | None \<Rightarrow> frozen_get (frozen_tables m) k)"

section \<open>SST and SSTBuilder\<close>

text \<open>
  Modelled from the spec: an SST (section 4.3) is an immutable sorted run with an
  id; blocks, bloom filter and cache only speed up \<open>get\<close>, which returns the record of
  the key or \<open>end()\<close>. The file of an SST is named by \<open>get_sst_path\<close>, which formats
  the id and the level and is injective in both, so a path is the pair.
\<close>

type_synonym path = "nat \<times> nat"

record SST =
  sst_id :: nat
  sst_path :: path
  sst_entries :: "kv list"

definition get_sst_path :: "nat \<Rightarrow> nat \<Rightarrow> path" where
  "get_sst_path sid target_level = (sid, target_level)"

definition sst_get :: "SST \<Rightarrow> string \<Rightarrow> string option" where
  "sst_get sst k = map_of (sst_entries sst) k"

definition get_first_key :: "SST \<Rightarrow> string" where
  "get_first_key sst = (case sst_entries sst of [] \<Rightarrow> [] | (k, v) # rest \<Rightarrow> k)"

definition get_last_key :: "SST \<Rightarrow> string" where
  "get_last_key sst = (case sst_entries sst of [] \<Rightarrow> [] | e # rest \<Rightarrow> fst (last (e # rest)))"

section \<open>The engine state\<close>

text \<open>
  \<open>level_sst_ids\<close> is a map from level to a deque of ids; it is an association list
  so that a level that was never touched differs from an empty one, as
  \<open>level_sst_ids.find(0)\<close> in \<open>flush\<close> observes. \<open>disk\<close> is the data directory: the
  records of each SST file.
\<close>

record LSMEngine =
  memtable :: MemTable
  level_sst_ids :: "(nat \<times> nat list) list"
  ssts :: "nat \<rightharpoonup> SST"
  cur_max_sst_id :: nat
  cur_max_level :: nat
  disk :: "path \<rightharpoonup> kv list"

datatype 'a outcome = Ok 'a | Fail error LSMEngine

definition lvl :: "(nat \<times> nat list) list \<Rightarrow> nat \<Rightarrow> nat list" where
  "lvl m l = (case map_of m l of None \<Rightarrow> [] | Some ids \<Rightarrow> ids)"

fun lvl_set :: "nat \<Rightarrow> nat list \<Rightarrow> (nat \<times> nat list) list \<Rightarrow> (nat \<times> nat list) list" where
  "lvl_set l ids [] = [(l, ids)]"
| "lvl_set l ids ((l', ids') # m) =
     (if l = l' then (l, ids) # m else (l', ids') # lvl_set l ids m)"

fun max_level :: "(nat \<times> nat list) list \<Rightarrow> nat" where
  "max_level [] = 0"
| "max_level ((l, ids) # m) = max l (max_level m)"

definition empty_engine :: LSMEngine where
  "empty_engine =
     \<lparr>memtable = mt_empty, level_sst_ids = [], ssts = Map.empty,
      cur_max_sst_id = 0, cur_max_level = 0, disk = Map.empty\<rparr>"


text \<open>
  Modelled from the spec: \<open>SSTBuilder::build(sst_id, path, cache)\<close> writes the records
  added so far to \<open>path\<close> and returns the opened SST; an I/O failure propagates to the
  caller and leaves the directory as it was.
\<close>

definition build :: "config \<Rightarrow> LSMEngine \<Rightarrow> kv list \<Rightarrow> nat \<Rightarrow> path \<Rightarrow> (SST \<times> LSMEngine) outcome" where
  "build c s builder sid p =
     (if io_ok c sid
      then Ok (\<lparr>sst_id = sid, sst_path = p, sst_entries = builder\<rparr>,
               s\<lparr>disk := (disk s)(p \<mapsto> builder)\<rparr>)
      else Fail IOFailure s)"

text \<open>
  Modelled from the spec: \<open>MemTable::flush_last\<close> pops the oldest frozen skiplist,
  streams its records in ascending key order into the builder, writes the SST and
  returns it; it panics if there is no frozen table.
\<close>

definition flush_last :: "config \<Rightarrow> LSMEngine \<Rightarrow> path \<Rightarrow> nat \<Rightarrow> (SST \<times> LSMEngine) outcome" where
  "flush_last c s p sid =
     (case frozen_tables (memtable s) of
        [] \<Rightarrow> Fail EmptyFrozenList s
      | t # ts \<Rightarrow>
          (case build c s (last (t # ts)) sid p of
             Fail e s' \<Rightarrow> Fail e s'
           | Ok (new_sst, s1) \<Rightarrow>
               Ok (new_sst,
                   s1\<lparr>memtable := (memtable s1)\<lparr>frozen_tables := butlast (t # ts)\<rparr>\<rparr>)))"

section \<open>Iterators\<close>

text \<open>
  \<open>SearchItem\<close> and its comparison operators, from \<open>src/iterator/iterator.cpp\<close>. The
  index is a signed integer.
\<close>

record SearchItem =
  si_key :: string
  si_value :: string
  si_idx :: int
  si_level :: nat

definition item_less :: "SearchItem \<Rightarrow> SearchItem \<Rightarrow> bool" where
  "item_less a b =
     (if si_key a \<noteq> si_key b then si_key a < si_key b else si_idx a < si_idx b)"

definition item_greater :: "SearchItem \<Rightarrow> SearchItem \<Rightarrow> bool" where
  "item_greater a b =
     (if si_key a \<noteq> si_key b then si_key a > si_key b else si_idx a > si_idx b)"

definition item_eq :: "SearchItem \<Rightarrow> SearchItem \<Rightarrow> bool" where
  "item_eq a b = (si_idx a = si_idx b \<and> si_key a = si_key b)"

text \<open>
  Modelled from the spec: the heap iterator (section 4.5) is a min-heap of
  \<open>SearchItem\<close> under \<open>operator>\<close> (a \<open>std::priority_queue\<close> with \<open>std::greater\<close>).
  The queue is kept as the list of its items in the order in which \<open>top/pop\<close> would
  deliver them. On advance the iterator pops the top and every following item with
  the same key.
\<close>

fun heap_push :: "SearchItem \<Rightarrow> SearchItem list \<Rightarrow> SearchItem list" where
  "heap_push x [] = [x]"
| "heap_push x (y # ys) =
     (if item_greater y x then x # y # ys else y # heap_push x ys)"

definition heap_of :: "SearchItem list \<Rightarrow> SearchItem list" where
  "heap_of items = foldl (\<lambda>h x. heap_push x h) [] items"

function heap_drain :: "SearchItem list \<Rightarrow> kv list" where
  "heap_drain [] = []"
| "heap_drain (x # xs) =
     (si_key x, si_value x) # heap_drain (dropWhile (\<lambda>y. si_key y = si_key x) xs)"
  by pat_completeness auto
termination
  by (relation "measure length") (auto simp: less_Suc_eq_le length_dropWhile_le)

text \<open>
  Modelled from the spec: an SST iterator is an SST and a position in it;
  \<open>merge_sst_iterator\<close> makes a heap iterator of the records of several SST cursors,
  each with the negated id of its SST as index, so that the larger id sorts first.
\<close>

type_synonym SstIterator = "SST \<times> nat"

definition sst_begin :: "SST \<Rightarrow> SstIterator" where
  "sst_begin sst = (sst, 0)"

definition sst_iter_items :: "SstIterator \<Rightarrow> SearchItem list" where
  "sst_iter_items it =
     map (\<lambda>(k, v). \<lparr>si_key = k, si_value = v, si_idx = - int (sst_id (fst it)), si_level = 0\<rparr>)
         (drop (snd it) (sst_entries (fst it)))"

definition merge_sst_iterator :: "SstIterator list \<Rightarrow> SearchItem list" where
  "merge_sst_iterator iter_vec = heap_of (concat (map sst_iter_items iter_vec))"

text \<open>
  Modelled from the spec: \<open>MemTable::begin\<close> is the heap iterator over all skiplists;
  the active one has index 0 and older tables have larger indices.
\<close>

definition table_items :: "nat \<Rightarrow> skiplist \<Rightarrow> SearchItem list" where
  "table_items i t =
     map (\<lambda>(k, v). \<lparr>si_key = k, si_value = v, si_idx = int i, si_level = 0\<rparr>) t"

definition mt_begin :: "MemTable \<Rightarrow> kv list" where
  "mt_begin m =
     (let tables = current_table m # frozen_tables m
      in heap_drain (heap_of (concat (map (\<lambda>i. table_items i (tables ! i)) [0..<length tables]))))"

text \<open>
  Modelled from the spec: the concat iterator walks the SSTs of one level in order;
  the two-merge iterator merges two cursors, and on equal keys the first one wins and
  both advance.
\<close>

definition ConcactIterator :: "SST list \<Rightarrow> kv list" where
  "ConcactIterator ssts_vec = concat (map sst_entries ssts_vec)"

fun TwoMergeIterator :: "kv list \<Rightarrow> kv list \<Rightarrow> kv list" where
  "TwoMergeIterator [] bs = bs"
| "TwoMergeIterator (a # as) [] = a # as"
| "TwoMergeIterator (a # as) (b # bs) =
     (if fst a < fst b then a # TwoMergeIterator as (b # bs)
      else if fst b < fst a then b # TwoMergeIterator (a # as) bs
      else a # TwoMergeIterator as bs)"


section \<open>The engine (\<open>src/lsm/engine.cpp\<close>)\<close>

subsection \<open>Opening a directory\<close>

text \<open>
  The constructor scans the data directory. A directory entry that passes the name
  filter \<open>sst_<id>.<level>\<close> is given by its parsed id and level and by the records of
  the file; the entries come in the order of the directory iterator.
\<close>

definition load_sst :: "LSMEngine \<Rightarrow> path \<times> kv list \<Rightarrow> LSMEngine" where
  "load_sst s entry =
     (let sid = fst (fst entry); level = snd (fst entry);
          sst = \<lparr>sst_id = sid, sst_path = get_sst_path sid level, sst_entries = snd entry\<rparr>
      in s\<lparr>cur_max_sst_id := max sid (cur_max_sst_id s),
           cur_max_level := max level (cur_max_level s),
           ssts := (ssts s)(sid \<mapsto> sst),
           level_sst_ids := lvl_set level (lvl (level_sst_ids s) level @ [sid]) (level_sst_ids s)\<rparr>)"

definition sort_levels :: "(nat \<times> nat list) list \<Rightarrow> (nat \<times> nat list) list" where
  "sort_levels m =
     map (\<lambda>(level, sst_id_list).
            (level, if level = 0 then rev (sort sst_id_list) else sort sst_id_list)) m"

definition engine_open :: "(path \<times> kv list) list \<Rightarrow> LSMEngine" where
  "engine_open dir =
     (let s = foldl load_sst (empty_engine\<lparr>disk := map_of dir\<rparr>) dir
      in s\<lparr>level_sst_ids := sort_levels (level_sst_ids s)\<rparr>)"

subsection \<open>get\<close>

text \<open>
  The loops of \<open>get\<close> return from the function on a hit: \<open>Some r\<close> is ``returned
  \<open>r\<close>'', \<open>None\<close> is ``fell through to the next layer''. \<open>level_sst_ids[level]\<close> reads an
  absent level as empty.
\<close>

definition hit :: "string \<Rightarrow> string option" where
  "hit v = (if length v > 0 then Some v else None)"

fun get_l0 :: "(nat \<rightharpoonup> SST) \<Rightarrow> nat list \<Rightarrow> string \<Rightarrow> error + string option option" where
  "get_l0 ss [] k = Inr None"
| "get_l0 ss (sid # rest) k =
     (case ss sid of
        None \<Rightarrow> Inl NullSst
      | Some sst \<Rightarrow>
          (case sst_get sst k of
             Some v \<Rightarrow> Inr (Some (hit v))
           | None \<Rightarrow> get_l0 ss rest k))"

function get_level :: "(nat \<rightharpoonup> SST) \<Rightarrow> nat list \<Rightarrow> string \<Rightarrow> nat \<Rightarrow> nat
    \<Rightarrow> error + string option option" where
  "get_level ss l_sst_ids k left right =
     (if left < right then
        (let mid = left + (right - left) div 2 in
         case ss (l_sst_ids ! mid) of
           None \<Rightarrow> Inl NullSst
         | Some sst \<Rightarrow>
             if get_first_key sst \<le> k \<and> k \<le> get_last_key sst then
               (case sst_get sst k of
                  Some v \<Rightarrow> Inr (Some (hit v))
                | None \<Rightarrow> Inr None)
             else if get_last_key sst < k then get_level ss l_sst_ids k (mid + 1) right
             else get_level ss l_sst_ids k left mid)
      else Inr None)"
  by pat_completeness auto
termination
  by (relation "measure (\<lambda>(ss, ids, k, left, right). right - left)") auto

declare get_level.simps [simp del]

fun get_levels :: "LSMEngine \<Rightarrow> nat list \<Rightarrow> string \<Rightarrow> error + string option" where
  "get_levels s [] k = Inr None"
| "get_levels s (level # rest) k =
     (let l_sst_ids = lvl (level_sst_ids s) level in
      case get_level (ssts s) l_sst_ids k 0 (length l_sst_ids) of
        Inl e \<Rightarrow> Inl e
      | Inr (Some r) \<Rightarrow> Inr r
      | Inr None \<Rightarrow> get_levels s rest k)"

definition engine_get :: "LSMEngine \<Rightarrow> string \<Rightarrow> error + string option" where
  "engine_get s k =
     (case mt_get (memtable s) k of
        Some v \<Rightarrow> Inr (hit v)
      | None \<Rightarrow>
          (case get_l0 (ssts s) (lvl (level_sst_ids s) 0) k of
             Inl e \<Rightarrow> Inl e
           | Inr (Some r) \<Rightarrow> Inr r
           | Inr None \<Rightarrow> get_levels s [1..<Suc (cur_max_level s)] k))"

subsection \<open>Building SSTs from a merged cursor\<close>

text \<open>
  \<open>gen_sst_from_iter\<close>: the loop adds the record under the cursor to the builder and
  advances; the arguments are the rest of the cursor, the builder and the SSTs built
  so far.
\<close>

fun gen_loop :: "config \<Rightarrow> nat \<Rightarrow> nat \<Rightarrow> kv list \<Rightarrow> kv list \<Rightarrow> SST list \<Rightarrow> LSMEngine
    \<Rightarrow> (SST list \<times> kv list \<times> LSMEngine) outcome" where
  "gen_loop c target_sst_size target_level [] builder new_ssts s = Ok (new_ssts, builder, s)"
| "gen_loop c target_sst_size target_level (e # iter) builder new_ssts s =
     (let builder1 = builder @ [e] in
      if estimated_size c builder1 \<ge> target_sst_size then
        (let sid = cur_max_sst_id s; s1 = s\<lparr>cur_max_sst_id := sid + 1\<rparr> in
         case build c s1 builder1 sid (get_sst_path sid target_level) of
           Fail err s' \<Rightarrow> Fail err s'
         | Ok (new_sst, s2) \<Rightarrow>
             gen_loop c target_sst_size target_level iter [] (new_ssts @ [new_sst]) s2)
      else gen_loop c target_sst_size target_level iter builder1 new_ssts s)"

definition gen_sst_from_iter :: "config \<Rightarrow> LSMEngine \<Rightarrow> kv list \<Rightarrow> nat \<Rightarrow> nat
    \<Rightarrow> (SST list \<times> LSMEngine) outcome" where
  "gen_sst_from_iter c s iter target_sst_size target_level =
     (case gen_loop c target_sst_size target_level iter [] [] s of
        Fail err s' \<Rightarrow> Fail err s'
      | Ok (new_ssts, builder, s1) \<Rightarrow>
          if estimated_size c builder > 0 then
            (let sid = cur_max_sst_id s1; s2 = s1\<lparr>cur_max_sst_id := sid + 1\<rparr> in
             case build c s2 builder sid (get_sst_path sid target_level) of
               Fail err s' \<Rightarrow> Fail err s'
             | Ok (new_sst, s3) \<Rightarrow> Ok (new_ssts @ [new_sst], s3))
          else Ok (new_ssts, s1))"

text \<open>
  The product of two \<open>size_t\<close> values is the product of 64-bit words, which wraps
  around at \<open>2 ^ 64\<close>.
\<close>

definition size_t_mul :: "nat \<Rightarrow> nat \<Rightarrow> nat" where
  "size_t_mul a b = unat ((word_of_nat a :: 64 word) * word_of_nat b)"

text \<open>
  \<open>get_sst_size\<close>: the limit times \<open>static_cast<size_t>(std::pow(LSM_SST_LEVEL_RATIO, level))\<close>,
  a product of \<open>size_t\<close> values.
\<close>

definition get_sst_size :: "config \<Rightarrow> nat \<Rightarrow> nat" where
  "get_sst_size c level =
     (if level = 0 then LSM_PER_MEM_SIZE_LIMIT c
      else size_t_mul (LSM_PER_MEM_SIZE_LIMIT c) (std_pow c (LSM_SST_LEVEL_RATIO c) level))"

subsection \<open>Compaction\<close>

fun lookup_ssts :: "(nat \<rightharpoonup> SST) \<Rightarrow> nat list \<Rightarrow> SST list option" where
  "lookup_ssts ss [] = Some []"
| "lookup_ssts ss (sid # rest) =
     (case ss sid of
        None \<Rightarrow> None
      | Some sst \<Rightarrow> (case lookup_ssts ss rest of None \<Rightarrow> None | Some r \<Rightarrow> Some (sst # r)))"

text \<open>
  \<open>full_l0_l1_compact\<close> passes the product of the two constants as the \<open>size_t\<close>
  target of level 1; \<open>full_common_compact\<close> passes \<open>get_sst_size(level_y)\<close>.
\<close>

definition full_l0_l1_compact :: "config \<Rightarrow> LSMEngine \<Rightarrow> nat list \<Rightarrow> nat list
    \<Rightarrow> (SST list \<times> LSMEngine) outcome" where
  "full_l0_l1_compact c s l0_ids l1_ids =
     (case lookup_ssts (ssts s) l0_ids of
        None \<Rightarrow> Fail NullSst s
      | Some l0_ssts \<Rightarrow>
          (case lookup_ssts (ssts s) l1_ids of
             None \<Rightarrow> Fail NullSst s
           | Some l1_ssts \<Rightarrow>
               gen_sst_from_iter c s
                 (TwoMergeIterator (heap_drain (merge_sst_iterator (map sst_begin l0_ssts)))
                                   (ConcactIterator l1_ssts))
                 (size_t_mul (LSM_PER_MEM_SIZE_LIMIT c) (LSM_SST_LEVEL_RATIO c)) 1))"

definition full_common_compact :: "config \<Rightarrow> LSMEngine \<Rightarrow> nat list \<Rightarrow> nat list \<Rightarrow> nat
    \<Rightarrow> (SST list \<times> LSMEngine) outcome" where
  "full_common_compact c s lx_ids ly_ids level_y =
     (case lookup_ssts (ssts s) lx_ids of
        None \<Rightarrow> Fail NullSst s
      | Some lx_iters \<Rightarrow>
          (case lookup_ssts (ssts s) ly_ids of
             None \<Rightarrow> Fail NullSst s
           | Some ly_iters \<Rightarrow>
               gen_sst_from_iter c s
                 (TwoMergeIterator (ConcactIterator lx_iters) (ConcactIterator ly_iters))
                 (get_sst_size c level_y) level_y))"

text \<open>
  The body of \<open>full_compact\<close> after the recursive call, in its three steps: building
  the new SSTs (lines 321--332), removing the old ones (lines 334--343) and
  registering the new ones (lines 345--354).
\<close>

definition compact_build :: "config \<Rightarrow> LSMEngine \<Rightarrow> nat \<Rightarrow> nat list \<Rightarrow> nat list
    \<Rightarrow> (SST list \<times> LSMEngine) outcome" where
  "compact_build c s src_level lx_ids ly_ids =
     (if src_level = 0 then full_l0_l1_compact c s lx_ids ly_ids
      else full_common_compact c s lx_ids ly_ids (src_level + 1))"

fun del_ssts :: "LSMEngine \<Rightarrow> nat list \<Rightarrow> LSMEngine outcome" where
  "del_ssts s [] = Ok s"
| "del_ssts s (old_sst_id # rest) =
     (case ssts s old_sst_id of
        None \<Rightarrow> Fail NullSst s
      | Some sst \<Rightarrow>
          del_ssts (s\<lparr>disk := (disk s)(sst_path sst := None),
                      ssts := (ssts s)(old_sst_id := None)\<rparr>) rest)"

definition compact_remove_old :: "LSMEngine \<Rightarrow> nat \<Rightarrow> nat list \<Rightarrow> nat list \<Rightarrow> LSMEngine outcome" where
  "compact_remove_old s src_level old_level_id_x old_level_id_y =
     (case del_ssts s old_level_id_x of
        Fail err s' \<Rightarrow> Fail err s'
      | Ok s1 \<Rightarrow>
          (case del_ssts s1 old_level_id_y of
             Fail err s' \<Rightarrow> Fail err s'
           | Ok s2 \<Rightarrow>
               Ok (s2\<lparr>level_sst_ids :=
                        lvl_set (src_level + 1) [] (lvl_set src_level [] (level_sst_ids s2))\<rparr>)))"

fun add_ssts :: "nat \<Rightarrow> LSMEngine \<Rightarrow> SST list \<Rightarrow> LSMEngine" where
  "add_ssts level s [] = s"
| "add_ssts level s (new_sst # rest) =
     add_ssts level
       (s\<lparr>level_sst_ids :=
            lvl_set level (lvl (level_sst_ids s) level @ [sst_id new_sst]) (level_sst_ids s),
          ssts := (ssts s)(sst_id new_sst \<mapsto> new_sst)\<rparr>) rest"

definition compact_register :: "LSMEngine \<Rightarrow> nat \<Rightarrow> SST list \<Rightarrow> LSMEngine" where
  "compact_register s src_level new_ssts =
     (let s1 = s\<lparr>cur_max_level := max (cur_max_level s) (src_level + 1)\<rparr>;
          s2 = add_ssts (src_level + 1) s1 new_ssts
      in s2\<lparr>level_sst_ids :=
              lvl_set (src_level + 1) (sort (lvl (level_sst_ids s2) (src_level + 1)))
                (level_sst_ids s2)\<rparr>)"

definition compact_level :: "config \<Rightarrow> LSMEngine \<Rightarrow> nat \<Rightarrow> LSMEngine outcome" where
  "compact_level c s src_level =
     (let old_level_id_x = lvl (level_sst_ids s) src_level;
          old_level_id_y = lvl (level_sst_ids s) (src_level + 1)
      in case compact_build c s src_level old_level_id_x old_level_id_y of
           Fail err s' \<Rightarrow> Fail err s'
         | Ok (new_ssts, s1) \<Rightarrow>
             (case compact_remove_old s1 src_level old_level_id_x old_level_id_y of
                Fail err s' \<Rightarrow> Fail err s'
              | Ok s2 \<Rightarrow> Ok (compact_register s2 src_level new_ssts)))"

text \<open>
  \<open>full_compact\<close> first compacts the next level if that is full. With a ratio of 0
  the test \<open>size() >= LSM_SST_LEVEL_RATIO\<close> holds at every level and the recursion of
  the source never returns; the model reports this as \<open>UnboundedRecursion\<close>.
\<close>

function full_compact :: "config \<Rightarrow> LSMEngine \<Rightarrow> nat \<Rightarrow> LSMEngine outcome" where
  "full_compact c s src_level =
     (if LSM_SST_LEVEL_RATIO c = 0 then Fail UnboundedRecursion s
      else if LSM_SST_LEVEL_RATIO c \<le> length (lvl (level_sst_ids s) (src_level + 1)) then
        (case full_compact c s (src_level + 1) of
           Fail err s' \<Rightarrow> Fail err s'
         | Ok s1 \<Rightarrow> compact_level c s1 src_level)
      else compact_level c s src_level)"
  by pat_completeness auto
termination
proof (relation "measure (\<lambda>(c, s, src_level). Suc (max_level (level_sst_ids s)) - src_level)")
  show "wf (measure (\<lambda>(c, s, src_level). Suc (max_level (level_sst_ids s)) - src_level))"
    by simp
next
  fix c :: config and s :: LSMEngine and src_level :: nat
  assume r: "LSM_SST_LEVEL_RATIO c \<noteq> 0"
    and full: "LSM_SST_LEVEL_RATIO c \<le> length (lvl (level_sst_ids s) (src_level + 1))"
  have bound: "lvl m l \<noteq> [] \<Longrightarrow> l \<le> max_level m" for m l
    by (induction m) (auto simp: lvl_def split: if_splits)
  from r full have "lvl (level_sst_ids s) (src_level + 1) \<noteq> []"
    by auto
  then have "src_level + 1 \<le> max_level (level_sst_ids s)"
    by (rule bound)
  then show "((c, s, src_level + 1), (c, s, src_level))
      \<in> measure (\<lambda>(c, s, src_level). Suc (max_level (level_sst_ids s)) - src_level)"
    by simp
qed

declare full_compact.simps [simp del]

subsection \<open>flush, put, remove\<close>

definition flush :: "config \<Rightarrow> LSMEngine \<Rightarrow> LSMEngine outcome" where
  "flush c s =
     (if get_total_size (memtable s) = 0 then Ok s
      else
        (case (if map_of (level_sst_ids s) 0 \<noteq> None
                  \<and> LSM_SST_LEVEL_RATIO c \<le> length (lvl (level_sst_ids s) 0)
               then full_compact c s 0 else Ok s) of
           Fail err s' \<Rightarrow> Fail err s'
         | Ok s1 \<Rightarrow>
             (let new_sst_id = cur_max_sst_id s1;
                  s2 = s1\<lparr>cur_max_sst_id := new_sst_id + 1\<rparr>;
                  sst_path = get_sst_path new_sst_id 0
              in case flush_last c s2 sst_path new_sst_id of
                   Fail err s' \<Rightarrow> Fail err s'
                 | Ok (new_sst, s3) \<Rightarrow>
                     Ok (s3\<lparr>ssts := (ssts s3)(new_sst_id \<mapsto> new_sst),
                            level_sst_ids :=
                              lvl_set 0 (new_sst_id # lvl (level_sst_ids s3) 0)
                                (level_sst_ids s3)\<rparr>))))"

definition engine_put :: "config \<Rightarrow> LSMEngine \<Rightarrow> string \<Rightarrow> string \<Rightarrow> LSMEngine outcome" where
  "engine_put c s k v =
     (let s1 = s\<lparr>memtable := mt_put c (memtable s) k v\<rparr>
      in if get_total_size (memtable s1) \<ge> LSM_TOL_MEM_SIZE_LIMIT c then flush c s1
         else Ok s1)"

definition engine_remove :: "config \<Rightarrow> LSMEngine \<Rightarrow> string \<Rightarrow> LSMEngine" where
  "engine_remove c s k = s\<lparr>memtable := mt_remove c (memtable s) k\<rparr>"

subsection \<open>Range scan\<close>

text \<open>
  \<open>begin\<close> pushes a cursor for every position of every level-0 SST and merges them
  with the cursor of the MemTable.
\<close>

definition sst_positions :: "SST \<Rightarrow> SstIterator list" where
  "sst_positions sst = map (\<lambda>pos. (sst, pos)) [0..<length (sst_entries sst)]"

definition engine_begin :: "LSMEngine \<Rightarrow> error + kv list" where
  "engine_begin s =
     (case lookup_ssts (ssts s) (lvl (level_sst_ids s) 0) of
        None \<Rightarrow> Inl NullSst
      | Some l0_ssts \<Rightarrow>
          Inr (TwoMergeIterator (mt_begin (memtable s))
                 (heap_drain (merge_sst_iterator (concat (map sst_positions l0_ssts))))))"

section \<open>The read path in the words of the specification\<close>

text \<open>
  The layers that \<open>get\<close> consults, in the order of the specification: the MemTable,
  the level-0 SSTs in stored order, and for each level from 1 to \<open>cur_max_level\<close> the
  SST whose range \<open>[first_key, last_key]\<close> contains the key. The result is the first
  hit, with an empty value read as ``not present''.
\<close>

definition in_range :: "SST \<Rightarrow> string \<Rightarrow> bool" where
  "in_range sst k = (get_first_key sst \<le> k \<and> k \<le> get_last_key sst)"

fun first_hit :: "'a option list \<Rightarrow> 'a option" where
  "first_hit [] = None"
| "first_hit (x # xs) = (case x of Some v \<Rightarrow> Some v | None \<Rightarrow> first_hit xs)"

definition level_ssts :: "LSMEngine \<Rightarrow> nat \<Rightarrow> SST list" where
  "level_ssts s l = List.map_filter (ssts s) (lvl (level_sst_ids s) l)"

definition probe_list :: "SST list \<Rightarrow> string \<Rightarrow> string option" where
  "probe_list xs k =
     (case find (\<lambda>sst. in_range sst k) xs of
        None \<Rightarrow> None
      | Some sst \<Rightarrow> sst_get sst k)"

definition layers :: "LSMEngine \<Rightarrow> string \<Rightarrow> string option list" where
  "layers s k =
     mt_get (memtable s) k
       # map (\<lambda>sst. sst_get sst k) (level_ssts s 0)
       @ map (\<lambda>l. probe_list (level_ssts s l) k) [1..<Suc (cur_max_level s)]"

definition get_spec :: "LSMEngine \<Rightarrow> string \<Rightarrow> string option" where
  "get_spec s k = (case first_hit (layers s k) of None \<Rightarrow> None | Some v \<Rightarrow> hit v)"

text \<open>
  The level map is well formed when every id of a level up to \<open>cur_max_level\<close> is
  registered in \<open>ssts\<close> and the SSTs of every level from 1 on have ascending, disjoint
  key ranges.
\<close>

definition ranges_sorted :: "SST list \<Rightarrow> bool" where
  "ranges_sorted xs =
     ((\<forall>sst \<in> set xs. get_first_key sst \<le> get_last_key sst)
      \<and> sorted_wrt (\<lambda>a b. get_last_key a < get_first_key b) xs)"

definition registered :: "LSMEngine \<Rightarrow> bool" where
  "registered s =
     (\<forall>l \<in> {0..cur_max_level s}. \<forall>sid \<in> set (lvl (level_sst_ids s) l). ssts s sid \<noteq> None)"

definition levels_ok :: "LSMEngine \<Rightarrow> bool" where
  "levels_ok s =
     (registered s
      \<and> (\<forall>l \<in> {1..cur_max_level s}. ranges_sorted (level_ssts s l)))"

section \<open>Example configurations and states\<close>

definition example_size :: "kv list \<Rightarrow> nat" where
  "example_size b = sl_size b + length b"

text \<open>
  A small configuration. Its ratio is 4, so that every power \<open>4 ^ level\<close> up to level 31
  is a power of two below \<open>2 ^ 64\<close>, which is a double and which \<open>std::pow\<close> returns as
  it is.
\<close>

definition small_config :: config where
  "small_config =
     \<lparr>LSM_TOL_MEM_SIZE_LIMIT = 8, LSM_PER_MEM_SIZE_LIMIT = 4, LSM_SST_LEVEL_RATIO = 4,
      estimated_size = example_size, io_ok = (\<lambda>sid. True), std_pow = (\<lambda>x y. x ^ y)\<rparr>"

definition example_sst :: "nat \<Rightarrow> nat \<Rightarrow> kv list \<Rightarrow> SST" where
  "example_sst sid level recs =
     \<lparr>sst_id = sid, sst_path = get_sst_path sid level, sst_entries = recs\<rparr>"

definition example_engine :: LSMEngine where
  "example_engine =
     \<lparr>memtable = \<lparr>current_table = [(''a'', ''1'')], frozen_tables = [[(''b'', ''0'')]]\<rparr>,
      level_sst_ids = [(0, [4, 3]), (1, [1, 2])],
      ssts = [1 \<mapsto> example_sst 1 1 [(''c'', ''2''), (''d'', ''3'')],
              2 \<mapsto> example_sst 2 1 [(''e'', ''4''), (''g'', ''5'')],
              3 \<mapsto> example_sst 3 0 [(''c'', ''6''), (''f'', ''7'')],
              4 \<mapsto> example_sst 4 0 [(''e'', '''')]],
      cur_max_sst_id = 5, cur_max_level = 1,
      disk = [(1, 1) \<mapsto> [(''c'', ''2''), (''d'', ''3'')],
              (2, 1) \<mapsto> [(''e'', ''4''), (''g'', ''5'')],
              (3, 0) \<mapsto> [(''c'', ''6''), (''f'', ''7'')],
              (4, 0) \<mapsto> [(''e'', '''')]]\<rparr>"

text \<open>A directory left by an earlier run: one level-0 SST with id 0.\<close>

definition reopened_engine :: LSMEngine where
  "reopened_engine = engine_open [((0, 0), [(''a'', ''1'')])]"

section \<open>SST roll-over in the words of the specification\<close>

text \<open>
  A builder is below the target when no non-empty prefix of its records has reached
  the target size; an SST was rolled over at the target when its records reach the
  target and the records before the last one are below it. \<open>compact_target\<close> is the
  target size that a compaction from \<open>src_level\<close> passes to \<open>gen_sst_from_iter\<close>, and
  \<open>compact_cursor\<close> is the merged cursor that it streams.
\<close>

definition below_target :: "config \<Rightarrow> nat \<Rightarrow> kv list \<Rightarrow> bool" where
  "below_target c t b = (\<forall>n. 0 < n \<and> n \<le> length b \<longrightarrow> estimated_size c (take n b) < t)"

definition rolled_at_target :: "config \<Rightarrow> nat \<Rightarrow> SST \<Rightarrow> bool" where
  "rolled_at_target c t sst =
     (t \<le> estimated_size c (sst_entries sst) \<and> below_target c t (butlast (sst_entries sst)))"

definition compact_target :: "config \<Rightarrow> nat \<Rightarrow> nat" where
  "compact_target c src_level =
     (if src_level = 0 then size_t_mul (LSM_PER_MEM_SIZE_LIMIT c) (LSM_SST_LEVEL_RATIO c)
      else get_sst_size c (src_level + 1))"

definition compact_cursor :: "nat \<Rightarrow> SST list \<Rightarrow> SST list \<Rightarrow> kv list" where
  "compact_cursor src_level xs ys =
     (if src_level = 0
      then TwoMergeIterator (heap_drain (merge_sst_iterator (map sst_begin xs))) (ConcactIterator ys)
      else TwoMergeIterator (ConcactIterator xs) (ConcactIterator ys))"

definition three_records :: "kv list" where
  "three_records = [(''a'', ''1''), (''b'', ''2''), (''c'', ''3'')]"

text \<open>
  An engine whose level 30 holds one SST, and the records of the SSTs that a
  compaction step has built.
\<close>

definition deep_engine :: LSMEngine where
  "deep_engine =
     \<lparr>memtable = mt_empty, level_sst_ids = [(30, [1])],
      ssts = [1 \<mapsto> example_sst 1 30 three_records],
      cur_max_sst_id = 2, cur_max_level = 30,
      disk = [(1, 30) \<mapsto> three_records]\<rparr>"

definition built_records :: "(SST list \<times> LSMEngine) outcome \<Rightarrow> kv list list" where
  "built_records r = (case r of Ok (new_ssts, s') \<Rightarrow> map sst_entries new_ssts | Fail e s' \<Rightarrow> [])"

section \<open>Merging in the words of the specification\<close>

text \<open>
  The order in which the heap delivers items: \<open>a\<close> is delivered no later than \<open>b\<close>
  when \<open>a > b\<close> does not hold.
\<close>

definition item_le :: "SearchItem \<Rightarrow> SearchItem \<Rightarrow> bool" where
  "item_le a b = (\<not> item_greater a b)"

text \<open>
  The sources of a merge are lists of records with an index each. \<open>best\<close> is the
  record of a key in the source with the least index among those that hold the key.
\<close>

fun best :: "(int \<times> kv list) list \<Rightarrow> string \<Rightarrow> (int \<times> string) option" where
  "best [] k = None"
| "best ((i, es) # rest) k =
     (case map_of es k of
        None \<Rightarrow> best rest k
      | Some v \<Rightarrow>
          (case best rest k of
             None \<Rightarrow> Some (i, v)
           | Some (j, w) \<Rightarrow> if j < i then Some (j, w) else Some (i, v)))"

definition source_items :: "(int \<times> kv list) list \<Rightarrow> SearchItem set" where
  "source_items srcs =
     {\<lparr>si_key = k, si_value = v, si_idx = i, si_level = 0\<rparr> | k v i es.
        (i, es) \<in> set srcs \<and> (k, v) \<in> set es}"

text \<open>A cursor is ascending when its keys are strictly ascending.\<close>

definition ascending :: "kv list \<Rightarrow> bool" where
  "ascending xs = sorted_wrt (<) (map fst xs)"

text \<open>
  Among the SSTs that hold a key, the one with the largest id is the newest;
  \<open>newest\<close> is its id and its value for the key.
\<close>

fun newest :: "SST list \<Rightarrow> string \<Rightarrow> (nat \<times> string) option" where
  "newest [] k = None"
| "newest (sst # rest) k =
     (case sst_get sst k of
        None \<Rightarrow> newest rest k
      | Some v \<Rightarrow>
          (case newest rest k of
             None \<Rightarrow> Some (sst_id sst, v)
           | Some (j, w) \<Rightarrow> if sst_id sst < j then Some (j, w) else Some (sst_id sst, v)))"

definition sst_source :: "SST \<Rightarrow> int \<times> kv list" where
  "sst_source sst = (- int (sst_id sst), sst_entries sst)"

definition table_sources :: "skiplist list \<Rightarrow> (int \<times> kv list) list" where
  "table_sources tables = map (\<lambda>i. (int i, tables ! i)) [0..<length tables]"

text \<open>
  The inputs of the merge of a range scan are well formed when the level-0 ids are
  registered and distinct and every skiplist and every level-0 SST has strictly
  ascending keys.
\<close>

definition merge_inputs_ok :: "LSMEngine \<Rightarrow> SST list \<Rightarrow> bool" where
  "merge_inputs_ok s l0 =
     (lookup_ssts (ssts s) (lvl (level_sst_ids s) 0) = Some l0
      \<and> distinct (map sst_id l0)
      \<and> (\<forall>sst \<in> set l0. ascending (sst_entries sst))
      \<and> (\<forall>t \<in> set (current_table (memtable s) # frozen_tables (memtable s)). ascending t))"

text \<open>An engine whose MemTable and level-0 SSTs hold overlapping keys.\<close>

definition scan_engine :: LSMEngine where
  "scan_engine =
     \<lparr>memtable = \<lparr>current_table = [(''b'', ''M'')],
                   frozen_tables = [[(''b'', ''old''), (''c'', ''F'')]]\<rparr>,
      level_sst_ids = [(0, [2, 1])],
      ssts = [1 \<mapsto> example_sst 1 0 [(''a'', ''1''), (''d'', ''1'')],
              2 \<mapsto> example_sst 2 0 [(''c'', ''new''), (''d'', ''2'')]],
      cur_max_sst_id = 3, cur_max_level = 0,
      disk = [(1, 0) \<mapsto> [(''a'', ''1''), (''d'', ''1'')],
              (2, 0) \<mapsto> [(''c'', ''new''), (''d'', ''2'')]]\<rparr>"

text \<open>
  A step only builds when it leaves the MemTable, the registered SSTs and the level
  map as they are, never lowers the id counter, and leaves every file with an id
  below the counter untouched.
\<close>

definition build_only :: "LSMEngine \<Rightarrow> LSMEngine \<Rightarrow> bool" where
  "build_only s s' =
     (memtable s' = memtable s \<and> ssts s' = ssts s \<and> level_sst_ids s' = level_sst_ids s
      \<and> cur_max_level s' = cur_max_level s \<and> cur_max_sst_id s \<le> cur_max_sst_id s'
      \<and> (\<forall>p. fst p < cur_max_sst_id s \<longrightarrow> disk s' p = disk s p))"

text \<open>
  The compaction of level 0 of the example engine, step by step: the state after the
  new SST is built and the state after the old SSTs are removed.
\<close>

definition after_build :: LSMEngine where
  "after_build =
     (case compact_build small_config example_engine 0 [4, 3] [1, 2] of
        Ok (new_ssts, s1) \<Rightarrow> s1 | Fail e s' \<Rightarrow> s')"

definition after_removal :: LSMEngine where
  "after_removal =
     (case compact_remove_old after_build 0 [4, 3] [1, 2] of Ok s2 \<Rightarrow> s2 | Fail e s' \<Rightarrow> s')"

definition merged_sst :: SST where
  "merged_sst = example_sst 5 1
     [(''c'', ''6''), (''d'', ''3''), (''e'', []), (''f'', ''7''), (''g'', ''5'')]"

section \<open>Invariants of the engine\<close>

text \<open>
  The SSTs of a level from 1 on form a sorted run: none is empty and their records,
  taken in order, have strictly ascending keys.
\<close>

definition run_ok :: "SST list \<Rightarrow> bool" where
  "run_ok xs =
     ((\<forall>sst \<in> set xs. sst_entries sst \<noteq> []) \<and> ascending (concat (map sst_entries xs)))"

text \<open>
  A configuration is good when the per-memtable watermark does not exceed the total
  limit, the level ratio is positive, every SST file can be written, and a builder
  reports size 0 exactly when it holds no record.
\<close>

definition good_config :: "config \<Rightarrow> bool" where
  "good_config c =
     (LSM_PER_MEM_SIZE_LIMIT c \<le> LSM_TOL_MEM_SIZE_LIMIT c
      \<and> 0 < LSM_SST_LEVEL_RATIO c
      \<and> (\<forall>sid. io_ok c sid)
      \<and> (\<forall>b. estimated_size c b = 0 \<longleftrightarrow> b = []))"

text \<open>
  The invariant of the level map: every id of a level is below the id counter and
  registered under its own id with strictly ascending records; a level holds no id
  twice and no two levels share an id; level 0 is in strictly descending order of id;
  every level from 1 on is a sorted run; the levels above \<open>cur_max_level\<close> are empty.
\<close>

definition levels_inv :: "LSMEngine \<Rightarrow> bool" where
  "levels_inv s =
     ((\<forall>l. \<forall>sid \<in> set (lvl (level_sst_ids s) l).
          sid < cur_max_sst_id s
          \<and> (\<exists>sst. ssts s sid = Some sst \<and> sst_id sst = sid \<and> ascending (sst_entries sst)))
      \<and> (\<forall>l. distinct (lvl (level_sst_ids s) l))
      \<and> (\<forall>l l'. l \<noteq> l' \<longrightarrow> set (lvl (level_sst_ids s) l) \<inter> set (lvl (level_sst_ids s) l') = {})
      \<and> sorted_wrt (>) (lvl (level_sst_ids s) 0)
      \<and> (\<forall>l. 1 \<le> l \<longrightarrow> run_ok (level_ssts s l))
      \<and> (\<forall>l. cur_max_level s < l \<longrightarrow> lvl (level_sst_ids s) l = []))"

text \<open>
  What one level answers for a key, and what the engine holds for it: the first hit
  among the MemTable and the levels from 0 to \<open>cur_max_level\<close>.
\<close>

definition level_lookup :: "LSMEngine \<Rightarrow> string \<Rightarrow> nat \<Rightarrow> string option" where
  "level_lookup s k l =
     (if l = 0 then first_hit (map (\<lambda>sst. sst_get sst k) (level_ssts s 0))
      else probe_list (level_ssts s l) k)"

definition view :: "LSMEngine \<Rightarrow> string \<Rightarrow> string option" where
  "view s k =
     first_hit (mt_get (memtable s) k # map (level_lookup s k) [0..<Suc (cur_max_level s)])"

text \<open>
  The invariant of the MemTable: every skiplist has strictly ascending keys, and the
  active skiplist is empty or below the per-memtable watermark.
\<close>

definition mem_ok :: "config \<Rightarrow> MemTable \<Rightarrow> bool" where
  "mem_ok c m =
     ((\<forall>t \<in> set (current_table m # frozen_tables m). ascending t)
      \<and> (current_table m = [] \<or> sl_size (current_table m) < LSM_PER_MEM_SIZE_LIMIT c))"

definition engine_inv :: "config \<Rightarrow> LSMEngine \<Rightarrow> bool" where
  "engine_inv c s = (levels_inv s \<and> mem_ok c (memtable s))"

text \<open>
  A sequence of writes. \<open>last_op\<close> is the last operation of the sequence on a key;
  \<open>expected\<close> is what \<open>get\<close> returns after it: the value of a put unless it is empty,
  and \<open>nullopt\<close> after a remove or when the key was never written.
\<close>

datatype op = Put string string | Remove string

fun op_key :: "op \<Rightarrow> string" where
  "op_key (Put k v) = k"
| "op_key (Remove k) = k"

fun op_value :: "op \<Rightarrow> string" where
  "op_value (Put k v) = v"
| "op_value (Remove k) = []"

fun apply_op :: "config \<Rightarrow> LSMEngine \<Rightarrow> op \<Rightarrow> LSMEngine outcome" where
  "apply_op c s (Put k v) = engine_put c s k v"
| "apply_op c s (Remove k) = Ok (engine_remove c s k)"

fun run_ops :: "config \<Rightarrow> LSMEngine \<Rightarrow> op list \<Rightarrow> LSMEngine outcome" where
  "run_ops c s [] = Ok s"
| "run_ops c s (x # ops) =
     (case apply_op c s x of Fail e s' \<Rightarrow> Fail e s' | Ok s1 \<Rightarrow> run_ops c s1 ops)"

definition last_op :: "op list \<Rightarrow> string \<Rightarrow> op option" where
  "last_op ops k = find (\<lambda>x. op_key x = k) (rev ops)"

definition get_after :: "config \<Rightarrow> op list \<Rightarrow> string \<Rightarrow> error + string option" where
  "get_after c ops k =
     (case run_ops c empty_engine ops of Ok s \<Rightarrow> engine_get s k | Fail e s' \<Rightarrow> Inl e)"

text \<open>Seven writes of eight bytes each; every put is flushed, the fifth flush compacts.\<close>

definition example_ops :: "op list" where
  "example_ops =
     [Put ''k1'' ''v1v1v1'', Put ''k2'' ''v2v2v2'', Put ''k1'' ''w1w1w1'', Put ''k3'' ''v3v3v3'',
      Put ''k2'' ''______'', Put ''k4'' ''v4v4v4'', Remove ''k3'', Put ''k5'' ''v5v5v5'']"

fun expected :: "op option \<Rightarrow> string option" where
  "expected None = None"
| "expected (Some (Put k v)) = hit v"
| "expected (Some (Remove k)) = None"

section \<open>Batched writes, predicate scans and the sorted set of the Redis wrapper\<close>























section \<open>Compaction when writing an SST file can fail\<close>

text \<open>
  A configuration is sound when the level ratio is positive and a builder reports
  size 0 exactly when it holds no record; writing an SST file may fail.
\<close>

definition sound_config :: "config \<Rightarrow> bool" where
  "sound_config c =
     (0 < LSM_SST_LEVEL_RATIO c \<and> (\<forall>b. estimated_size c b = 0 \<longleftrightarrow> b = []))"

text \<open>
  The nested call of \<open>full_compact\<close>: the compaction of the next level, if that is
  full.
\<close>

definition nested_compact :: "config \<Rightarrow> LSMEngine \<Rightarrow> nat \<Rightarrow> LSMEngine outcome" where
  "nested_compact c s src_level =
     (if LSM_SST_LEVEL_RATIO c \<le> length (lvl (level_sst_ids s) (src_level + 1))
      then full_compact c s (src_level + 1) else Ok s)"

text \<open>
  The invariant of the files: every SST of \<open>ssts\<close> is on a level, and every SST on a
  level has the file named by its id and its level, which holds its records.
\<close>

definition files_inv :: "LSMEngine \<Rightarrow> bool" where
  "files_inv s =
     ((\<forall>sid sst. ssts s sid = Some sst \<longrightarrow> (\<exists>l. sid \<in> set (lvl (level_sst_ids s) l)))
      \<and> (\<forall>l. \<forall>sid \<in> set (lvl (level_sst_ids s) l). \<forall>sst. ssts s sid = Some sst \<longrightarrow>
            sst_path sst = get_sst_path sid l \<and> disk s (sst_path sst) = Some (sst_entries sst)))"

text \<open>The same configuration with a disk that never fails.\<close>

definition reliable :: "config \<Rightarrow> config" where
  "reliable c = c\<lparr>io_ok := (\<lambda>sid. True),
     LSM_TOL_MEM_SIZE_LIMIT := max (LSM_TOL_MEM_SIZE_LIMIT c) (LSM_PER_MEM_SIZE_LIMIT c)\<rparr>"

text \<open>
  An engine whose levels 0 and 1 are both full at ratio 2, and a configuration in
  which the write of the SST file with id 7 fails.
\<close>

definition nested_engine :: LSMEngine where
  "nested_engine =
     \<lparr>memtable = mt_empty,
      level_sst_ids = [(0, [5, 4]), (1, [2, 3])],
      ssts = [2 \<mapsto> example_sst 2 1 [(''c'', ''2''), (''d'', ''3'')],
              3 \<mapsto> example_sst 3 1 [(''e'', ''4''), (''g'', ''5'')],
              4 \<mapsto> example_sst 4 0 [(''c'', ''6''), (''f'', ''7'')],
              5 \<mapsto> example_sst 5 0 [(''e'', [])]],
      cur_max_sst_id = 6, cur_max_level = 1,
      disk = [(2, 1) \<mapsto> [(''c'', ''2''), (''d'', ''3'')],
              (3, 1) \<mapsto> [(''e'', ''4''), (''g'', ''5'')],
              (4, 0) \<mapsto> [(''c'', ''6''), (''f'', ''7'')],
              (5, 0) \<mapsto> [(''e'', [])]]\<rparr>"

definition flaky_config :: config where
  "flaky_config = small_config\<lparr>LSM_SST_LEVEL_RATIO := 2, io_ok := (\<lambda>sid. sid \<noteq> 7)\<rparr>"

section \<open>Properties\<close>

subsection \<open>The read path\<close>

lemma lookup_ssts_map_filter:
  "(\<forall>sid \<in> set ids. ss sid \<noteq> None) \<Longrightarrow> lookup_ssts ss ids = Some (List.map_filter ss ids)"
  by (induction ids) (auto simp: List.map_filter_simps)

lemma lookup_ssts_length: "lookup_ssts ss ids = Some xs \<Longrightarrow> length xs = length ids"
  by (induction ids arbitrary: xs) (auto split: option.splits)

lemma lookup_ssts_nth:
  "lookup_ssts ss ids = Some xs \<Longrightarrow> i < length ids \<Longrightarrow> ss (ids ! i) = Some (xs ! i)"
proof (induction ids arbitrary: xs i)
  case Nil then show ?case by simp
next
  case (Cons a ids)
  then show ?case by (cases i) (auto split: option.splits)
qed

lemma get_l0_first_hit:
  "lookup_ssts ss ids = Some xs \<Longrightarrow>
     get_l0 ss ids k = Inr (map_option hit (first_hit (map (\<lambda>sst. sst_get sst k) xs)))"
  by (induction ids arbitrary: xs) (auto split: option.splits)

lemma ranges_sorted_lt:
  assumes "ranges_sorted xs" "i < j" "j < length xs"
  shows "get_last_key (xs ! i) < get_first_key (xs ! j)"
  using assms by (auto simp: ranges_sorted_def sorted_wrt_iff_nth_less)

lemma ranges_sorted_unique:
  assumes rs: "ranges_sorted xs" and i: "i < length xs" and j: "j < length xs"
    and ri: "in_range (xs ! i) k" and rj: "in_range (xs ! j) k"
  shows "i = j"
proof (rule ccontr)
  assume "i \<noteq> j"
  then consider "i < j" | "j < i" by linarith
  then show False
  proof cases
    case 1
    from ranges_sorted_lt[OF rs 1 j] ri rj show False by (auto simp: in_range_def)
  next
    case 2
    from ranges_sorted_lt[OF rs 2 i] ri rj show False by (auto simp: in_range_def)
  qed
qed

lemma ranges_sorted_below:
  assumes rs: "ranges_sorted xs" and m: "m < length xs" and i: "i \<le> m"
    and lt: "get_last_key (xs ! m) < k"
  shows "\<not> in_range (xs ! i) k"
proof (cases "i = m")
  case True with lt show ?thesis by (auto simp: in_range_def)
next
  case False
  with i have "i < m" by simp
  from ranges_sorted_lt[OF rs this m] have "get_last_key (xs ! i) < get_first_key (xs ! m)" .
  moreover from rs m have "get_first_key (xs ! m) \<le> get_last_key (xs ! m)"
    by (auto simp: ranges_sorted_def)
  ultimately show ?thesis using lt by (auto simp: in_range_def)
qed

lemma ranges_sorted_above:
  assumes rs: "ranges_sorted xs" and m: "m \<le> i" and i: "i < length xs"
    and lt: "k < get_first_key (xs ! m)"
  shows "\<not> in_range (xs ! i) k"
proof (cases "i = m")
  case True with lt show ?thesis by (auto simp: in_range_def)
next
  case False
  with m have mi: "m < i" by simp
  from ranges_sorted_lt[OF rs mi i] have "get_last_key (xs ! m) < get_first_key (xs ! i)" .
  moreover from rs mi i have "get_first_key (xs ! m) \<le> get_last_key (xs ! m)"
    by (auto simp: ranges_sorted_def)
  ultimately show ?thesis using lt by (auto simp: in_range_def)
qed

lemma get_level_find_gen:
  assumes "lookup_ssts ss ids = Some xs" "ranges_sorted xs"
    "left \<le> right" "right \<le> length ids"
    "\<forall>i < left. \<not> in_range (xs ! i) k"
    "\<forall>i. right \<le> i \<and> i < length xs \<longrightarrow> \<not> in_range (xs ! i) k"
  shows "get_level ss ids k left right = Inr (map_option hit (probe_list xs k))"
  using assms
proof (induction ss ids k left right rule: get_level.induct)
  case (1 ss ids k left right)
  have len: "length xs = length ids" using 1 lookup_ssts_length by blast
  show ?case
  proof (cases "left < right")
    case False
    with 1 have "\<forall>i < length xs. \<not> in_range (xs ! i) k"
      by (metis le_antisym not_less)
    then have "find (\<lambda>sst. in_range sst k) xs = None"
      by (auto simp: find_None_iff in_set_conv_nth)
    with False show ?thesis by (simp add: probe_list_def get_level.simps)
  next
    case True
    define mid where "mid = left + (right - left) div 2"
    have mid: "left \<le> mid" "mid < right" using True by (auto simp: mid_def)
    then have midlen: "mid < length ids" using 1 by simp
    have reg: "ss (ids ! mid) = Some (xs ! mid)"
      using lookup_ssts_nth 1 midlen by blast
    show ?thesis
    proof (cases "in_range (xs ! mid) k")
      case inr: True
      have "find (\<lambda>sst. in_range sst k) xs = Some (xs ! mid)"
        unfolding find_Some_iff
      proof (intro exI[of _ mid] conjI allI impI)
        show "mid < length xs" using midlen len by simp
        show "in_range (xs ! mid) k" by (rule inr)
        show "xs ! mid = xs ! mid" ..
        fix j assume j: "j < mid"
        show "\<not> in_range (xs ! j) k"
        proof
          assume "in_range (xs ! j) k"
          from ranges_sorted_unique[OF "1.prems"(2) _ _ this inr] j midlen len show False by simp
        qed
      qed
      then have "probe_list xs k = sst_get (xs ! mid) k" by (simp add: probe_list_def)
      with True reg inr show ?thesis
        by (subst get_level.simps) (auto simp: mid_def[symmetric] in_range_def Let_def split: option.splits)
    next
      case nr: False
      show ?thesis
      proof (cases "get_last_key (xs ! mid) < k")
        case lt: True
        have below: "\<forall>i < mid + 1. \<not> in_range (xs ! i) k"
          using ranges_sorted_below[OF "1.prems"(2) _ _ lt] midlen len by simp
        have "get_level ss ids k (mid + 1) right = Inr (map_option hit (probe_list xs k))"
          using "1.IH"(1)[OF True mid_def reg _ lt "1.prems"(1,2) _ "1.prems"(4) below "1.prems"(6)] nr mid
          by (simp add: in_range_def)
        with True reg nr lt show ?thesis
          by (subst get_level.simps) (auto simp: mid_def[symmetric] in_range_def Let_def)
      next
        case nlt: False
        with nr have klt: "k < get_first_key (xs ! mid)" by (auto simp: in_range_def)
        have above: "\<forall>i. mid \<le> i \<and> i < length xs \<longrightarrow> \<not> in_range (xs ! i) k"
          using ranges_sorted_above[OF "1.prems"(2) _ _ klt] by simp
        have "get_level ss ids k left mid = Inr (map_option hit (probe_list xs k))"
          using "1.IH"(2)[OF True mid_def reg _ nlt "1.prems"(1,2) _ _ "1.prems"(5) above] nr mid midlen
          by (simp add: in_range_def)
        with True reg nr nlt show ?thesis
          by (subst get_level.simps) (auto simp: mid_def[symmetric] in_range_def Let_def)
      qed
    qed
  qed
qed

lemma registered_lookup:
  "registered s \<Longrightarrow> l \<le> cur_max_level s \<Longrightarrow>
     lookup_ssts (ssts s) (lvl (level_sst_ids s) l) = Some (level_ssts s l)"
  unfolding level_ssts_def registered_def
  by (intro lookup_ssts_map_filter) simp

lemma get_level_find:
  assumes "lookup_ssts ss ids = Some xs" "ranges_sorted xs"
  shows "get_level ss ids k 0 (length ids) = Inr (map_option hit (probe_list xs k))"
  by (rule get_level_find_gen[OF assms]) (use lookup_ssts_length[OF assms(1)] in auto)

lemma get_levels_first_hit:
  assumes "registered s"
    "\<forall>l \<in> set ls. l \<le> cur_max_level s \<and> ranges_sorted (level_ssts s l)"
  shows "get_levels s ls k =
     Inr (case first_hit (map (\<lambda>l. probe_list (level_ssts s l) k) ls) of
            None \<Rightarrow> None | Some v \<Rightarrow> hit v)"
  using assms(2)
proof (induction ls)
  case Nil
  then show ?case by simp
next
  case (Cons l ls)
  then have l: "l \<le> cur_max_level s" "ranges_sorted (level_ssts s l)" by auto
  have "get_level (ssts s) (lvl (level_sst_ids s) l) k 0 (length (lvl (level_sst_ids s) l))
      = Inr (map_option hit (probe_list (level_ssts s l) k))"
    by (rule get_level_find[OF registered_lookup[OF assms(1) l(1)] l(2)])
  with Cons show ?case
    by (cases "probe_list (level_ssts s l) k") (auto simp: Let_def)
qed

lemma first_hit_append:
  "first_hit (xs @ ys) = (case first_hit xs of Some v \<Rightarrow> Some v | None \<Rightarrow> first_hit ys)"
  by (induction xs) (auto split: option.splits)

lemma hit_not_empty: "hit v \<noteq> Some []"
  by (simp add: hit_def)

lemma engine_get_layers:
  assumes "levels_ok s"
  shows "engine_get s k = Inr (get_spec s k)"
proof -
  have reg: "registered s" using assms by (simp add: levels_ok_def)
  have l0: "get_l0 (ssts s) (lvl (level_sst_ids s) 0) k
      = Inr (map_option hit (first_hit (map (\<lambda>sst. sst_get sst k) (level_ssts s 0))))"
    by (rule get_l0_first_hit[OF registered_lookup[OF reg]]) simp
  have ls: "get_levels s [1..<Suc (cur_max_level s)] k =
     Inr (case first_hit (map (\<lambda>l. probe_list (level_ssts s l) k) [1..<Suc (cur_max_level s)]) of
            None \<Rightarrow> None | Some v \<Rightarrow> hit v)"
    by (rule get_levels_first_hit[OF reg]) (use assms in \<open>auto simp: levels_ok_def\<close>)
  show ?thesis
    unfolding engine_get_def get_spec_def layers_def
    using l0 ls by (simp add: first_hit_append del: upt_Suc split: option.splits)
qed

lemma get_spec_not_empty: "get_spec s k \<noteq> Some []"
  by (simp add: get_spec_def hit_not_empty split: option.splits)

text \<open>
  Claim C2. Under the invariants of the level map, \<open>get\<close> returns the first hit
  among the MemTable, the level-0 SSTs in stored order and, for each level from 1 to
  \<open>cur_max_level\<close>, the SST whose key range contains the key; the binary search of the
  source finds that SST. A hit with an empty value is returned as \<open>nullopt\<close> and
  never as an empty value.
\<close>

theorem get_consults_layers_in_order:
  assumes "levels_ok s"
  shows "engine_get s k = Inr (get_spec s k) \<and> engine_get s k \<noteq> Inr (Some [])"
  using engine_get_layers[OF assms] get_spec_not_empty[of s k] by simp

theorem get_consults_layers_in_order_witness:
  "levels_ok example_engine
   \<and> engine_get example_engine ''g'' = Inr (get_spec example_engine ''g'')
   \<and> get_spec example_engine ''g'' = Some ''5''
   \<and> engine_get example_engine ''e'' = Inr (get_spec example_engine ''e'')
   \<and> get_spec example_engine ''e'' = None"
proof -
  have ok: "levels_ok example_engine"
    by (simp add: levels_ok_def registered_def example_engine_def lvl_def level_ssts_def
        List.map_filter_simps ranges_sorted_def example_sst_def get_first_key_def
        get_last_key_def)
  have g: "get_spec example_engine ''g'' = Some ''5''" by code_simp
  have e: "get_spec example_engine ''e'' = None" by code_simp
  show ?thesis
    using ok g e get_consults_layers_in_order[OF ok, of "''g''"]
      get_consults_layers_in_order[OF ok, of "''e''"]
    by simp
qed

subsection \<open>remove and put\<close>

text \<open>
  Claim C4, as stated: \<open>remove(k)\<close> and \<open>put(k, "")\<close> leave the engine in identical
  states. This fails: \<open>put\<close> flushes when the MemTable has reached
  \<open>LSM_TOL_MEM_SIZE_LIMIT\<close>, \<open>remove\<close> never does. With a limit of 8 bytes, an 8-byte
  key put with the empty value is flushed to a level-0 SST, while \<open>remove\<close> leaves it
  in the MemTable.
\<close>

theorem remove_differs_from_put_empty:
  "engine_put small_config empty_engine ''abcdefgh'' []
     \<noteq> Ok (engine_remove small_config empty_engine ''abcdefgh'')"
  by (simp add: engine_put_def engine_remove_def mt_remove_def mt_put_def small_config_def
      empty_engine_def mt_empty_def sl_size_def freeze_current_def get_total_size_def flush_def
      flush_last_def build_def Let_def get_sst_path_def lvl_def)

text \<open>
  Claim C4, amended: \<open>remove(k)\<close> writes the same tombstone into the MemTable as
  \<open>put(k, "")\<close>; \<open>put(k, "")\<close> is \<open>remove(k)\<close> followed by \<open>flush()\<close> when the MemTable has
  reached \<open>LSM_TOL_MEM_SIZE_LIMIT\<close>, and is \<open>remove(k)\<close> otherwise.
\<close>

theorem remove_is_put_without_flush:
  "engine_put c s k [] =
     (if LSM_TOL_MEM_SIZE_LIMIT c \<le> get_total_size (memtable (engine_remove c s k))
      then flush c (engine_remove c s k)
      else Ok (engine_remove c s k))"
  by (simp add: engine_put_def engine_remove_def mt_remove_def Let_def)

theorem remove_is_put_without_flush_witness:
  "engine_put small_config empty_engine ''a'' [] = Ok (engine_remove small_config empty_engine ''a'')
   \<and> engine_put small_config empty_engine ''abcdefgh'' []
       = flush small_config (engine_remove small_config empty_engine ''abcdefgh'')"
proof -
  have a: "get_total_size (memtable (engine_remove small_config empty_engine ''a'')) = 1"
    by code_simp
  have b: "get_total_size (memtable (engine_remove small_config empty_engine ''abcdefgh'')) = 8"
    by code_simp
  have t: "LSM_TOL_MEM_SIZE_LIMIT small_config = 8"
    by (simp add: small_config_def)
  show ?thesis
    using remove_is_put_without_flush[of small_config empty_engine "''a''"]
      remove_is_put_without_flush[of small_config empty_engine "''abcdefgh''"] a b t
    by simp
qed

subsection \<open>flush without a frozen table\<close>

text \<open>
  Claim C3 says that the panic of \<open>flush_last\<close> cannot be reached from the public
  operations. On a fresh engine, \<open>put("a", "b")\<close> leaves two bytes in the active
  skiplist and no frozen table; \<open>flush()\<close> then passes the test on the total size and
  calls \<open>flush_last\<close> on an empty frozen list.
\<close>

theorem flush_reaches_panic:
  "(case engine_put small_config empty_engine ''a'' ''b'' of
      Ok s1 \<Rightarrow> get_total_size (memtable s1) = 2 \<and> frozen_tables (memtable s1) = []
               \<and> (case flush small_config s1 of Fail e s2 \<Rightarrow> e = EmptyFrozenList | Ok s2 \<Rightarrow> False)
    | Fail e s1 \<Rightarrow> False)"
  by (simp add: engine_put_def mt_put_def small_config_def
      empty_engine_def mt_empty_def sl_size_def freeze_current_def get_total_size_def flush_def
      flush_last_def build_def Let_def get_sst_path_def lvl_def)

subsection \<open>The order of level 0\<close>

text \<open>
  Claim C5 says that every flush mints a fresh, maximal id, so that level 0 is in
  descending order of id. After opening a directory that holds the SST 0, the
  counter \<open>cur_max_sst_id\<close> is 0, the largest id in use, and the next flush mints 0
  again: level 0 becomes \<open>[0, 0]\<close>, the new SST replaces the old one in \<open>ssts\<close> and on
  disk, and the key of the old SST is lost.
\<close>

theorem reopened_flush_reuses_sst_id:
  "engine_get reopened_engine ''a'' = Inr (Some ''1'')
   \<and> lvl (level_sst_ids reopened_engine) 0 = [0]
   \<and> cur_max_sst_id reopened_engine = 0
   \<and> (case engine_put small_config reopened_engine ''bbbb'' ''2222'' of
        Ok s1 \<Rightarrow> lvl (level_sst_ids s1) 0 = [0, 0] \<and> engine_get s1 ''a'' = Inr None
      | Fail e s1 \<Rightarrow> False)"
  by code_simp

subsection \<open>Building SSTs from a cursor\<close>

lemma below_target_snoc:
  "below_target c t b \<Longrightarrow> estimated_size c (b @ [e]) < t \<Longrightarrow> below_target c t (b @ [e])"
  unfolding below_target_def
proof (intro allI impI)
  fix n assume a: "\<forall>n. 0 < n \<and> n \<le> length b \<longrightarrow> estimated_size c (take n b) < t"
    "estimated_size c (b @ [e]) < t" "0 < n \<and> n \<le> length (b @ [e])"
  show "estimated_size c (take n (b @ [e])) < t"
  proof (cases "n \<le> length b")
    case True with a show ?thesis by simp
  next
    case False with a have "n = Suc (length b)" by simp
    with a show ?thesis by simp
  qed
qed

lemma gen_loop_chunks:
  assumes "gen_loop c t lv iter b acc s = Ok (r, b', s')" "below_target c t b"
  shows "\<exists>new. r = acc @ new \<and> (\<forall>sst \<in> set new. rolled_at_target c t sst)
           \<and> below_target c t b' \<and> b @ iter = concat (map sst_entries new) @ b'
           \<and> map sst_id new = [cur_max_sst_id s ..< cur_max_sst_id s + length new]
           \<and> cur_max_sst_id s' = cur_max_sst_id s + length new"
  using assms
proof (induction iter arbitrary: b acc s)
  case Nil
  then show ?case by simp
next
  case (Cons e iter)
  show ?case
  proof (cases "t \<le> estimated_size c (b @ [e])")
    case False
    with Cons.prems have run: "gen_loop c t lv iter (b @ [e]) acc s = Ok (r, b', s')"
      by (simp add: Let_def)
    have "below_target c t (b @ [e])"
      using below_target_snoc Cons.prems(2) False by simp
    from Cons.IH[OF run this] show ?thesis by simp
  next
    case True
    define sid where "sid = cur_max_sst_id s"
    define sst where "sst = \<lparr>sst_id = sid, sst_path = get_sst_path sid lv, sst_entries = b @ [e]\<rparr>"
    define s2 where "s2 = s\<lparr>cur_max_sst_id := sid + 1, disk := (disk s)(get_sst_path sid lv \<mapsto> b @ [e])\<rparr>"
    from Cons.prems True have ok: "io_ok c sid"
      by (auto simp: Let_def build_def sid_def split: if_splits)
    with Cons.prems True have run: "gen_loop c t lv iter [] (acc @ [sst]) s2 = Ok (r, b', s')"
      by (simp add: Let_def build_def sid_def sst_def s2_def)
    have "below_target c t []" by (simp add: below_target_def)
    from Cons.IH[OF run this] obtain new where new: "r = (acc @ [sst]) @ new"
      "\<forall>sst \<in> set new. rolled_at_target c t sst" "below_target c t b'"
      "[] @ iter = concat (map sst_entries new) @ b'"
      "map sst_id new = [cur_max_sst_id s2 ..< cur_max_sst_id s2 + length new]"
      "cur_max_sst_id s' = cur_max_sst_id s2 + length new"
      by blast
    have r: "rolled_at_target c t sst"
      using True Cons.prems(2) by (simp add: rolled_at_target_def sst_def)
    have "[cur_max_sst_id s ..< cur_max_sst_id s + length (sst # new)]
        = cur_max_sst_id s # [cur_max_sst_id s + 1 ..< cur_max_sst_id s + 1 + length new]"
      by (subst upt_conv_Cons) auto
    then have ids: "map sst_id (sst # new) = [cur_max_sst_id s ..< cur_max_sst_id s + length (sst # new)]"
      using new(5) by (simp add: s2_def sst_def sid_def)
    show ?thesis
      apply (rule exI[of _ "sst # new"])
      using new r ids by (simp add: sst_def s2_def sid_def)
  qed
qed

lemma below_target_butlast: "below_target c t b \<Longrightarrow> below_target c t (butlast b)"
  by (auto simp: below_target_def butlast_conv_take)

lemma rolled_below: "rolled_at_target c t sst \<Longrightarrow> below_target c t (butlast (sst_entries sst))"
  by (simp add: rolled_at_target_def)

lemma gen_sst_from_iter_chunks:
  assumes "gen_sst_from_iter c s iter t lv = Ok (new_ssts, s')"
  shows "(\<forall>sst \<in> set (butlast new_ssts). rolled_at_target c t sst)
       \<and> (\<forall>sst \<in> set new_ssts. below_target c t (butlast (sst_entries sst)))
       \<and> (\<exists>rest. iter = concat (map sst_entries new_ssts) @ rest
             \<and> (rest = [] \<or> estimated_size c rest = 0))
       \<and> map sst_id new_ssts = [cur_max_sst_id s ..< cur_max_sst_id s + length new_ssts]
       \<and> cur_max_sst_id s' = cur_max_sst_id s + length new_ssts"
proof -
  from assms obtain r b s1 where loop: "gen_loop c t lv iter [] [] s = Ok (r, b, s1)"
    by (auto simp: gen_sst_from_iter_def split: outcome.splits)
  have "below_target c t []" by (simp add: below_target_def)
  from gen_loop_chunks[OF loop this] have r: "\<forall>sst \<in> set r. rolled_at_target c t sst"
    "below_target c t b" "iter = concat (map sst_entries r) @ b"
    "map sst_id r = [cur_max_sst_id s ..< cur_max_sst_id s + length r]"
    "cur_max_sst_id s1 = cur_max_sst_id s + length r"
    by auto
  show ?thesis
  proof (cases "estimated_size c b > 0")
    case False
    with assms loop have "new_ssts = r" "s' = s1"
      by (auto simp: gen_sst_from_iter_def)
    with r False show ?thesis
      by (auto dest: in_set_butlastD rolled_below)
  next
    case True
    define sid where "sid = cur_max_sst_id s1"
    define sst where "sst = \<lparr>sst_id = sid, sst_path = get_sst_path sid lv, sst_entries = b\<rparr>"
    from assms loop True have res: "new_ssts = r @ [sst]" "cur_max_sst_id s' = sid + 1"
      by (auto simp: gen_sst_from_iter_def Let_def build_def sid_def sst_def split: if_splits)
    have "\<forall>x \<in> set new_ssts. below_target c t (butlast (sst_entries x))"
      using r res by (auto simp: sst_def dest: rolled_below below_target_butlast)
    moreover have "iter = concat (map sst_entries new_ssts) @ []"
      using r res by (simp add: sst_def)
    moreover have "map sst_id new_ssts = [cur_max_sst_id s ..< cur_max_sst_id s + length new_ssts]"
      using r res by (simp add: sst_def sid_def)
    moreover have "butlast new_ssts = r" using res by simp
    ultimately show ?thesis using r res by (auto simp: sid_def)
  qed
qed

lemma compact_build_target:
  "compact_build c s src_level lx_ids ly_ids =
     (case lookup_ssts (ssts s) lx_ids of
        None \<Rightarrow> Fail NullSst s
      | Some xs \<Rightarrow>
          (case lookup_ssts (ssts s) ly_ids of
             None \<Rightarrow> Fail NullSst s
           | Some ys \<Rightarrow>
               gen_sst_from_iter c s (compact_cursor src_level xs ys)
                 (compact_target c src_level) (src_level + 1)))"
  by (simp add: compact_build_def full_l0_l1_compact_def full_common_compact_def
      compact_cursor_def compact_target_def split: option.splits)

lemma size_t_mul_mod: "size_t_mul a b = (a * b) mod 2 ^ 64"
  by (simp add: size_t_mul_def unat_word_ariths unat_of_nat mod_mult_eq)

lemma size_t_mul_exact: "a * b < 2 ^ 64 \<Longrightarrow> size_t_mul a b = a * b"
  by (simp add: size_t_mul_mod)

lemma get_sst_size_31: "get_sst_size small_config 31 = 0"
  by (simp add: get_sst_size_def small_config_def size_t_mul_mod)

text \<open>
  Claim C8, as stated: the target size of every level from 1 on is the per-memtable
  limit times \<open>ratio ^ level\<close>. With limit 4 and ratio 4 that is \<open>2 ^ 64\<close> at level 31,
  but the \<open>size_t\<close> product of \<open>get_sst_size\<close> is 0; the compaction of level 30 into
  level 31 then finalizes an SST after every record, where the three records of the
  cursor are far below \<open>2 ^ 64\<close> bytes.
\<close>

theorem target_size_wraps_around:
  "LSM_PER_MEM_SIZE_LIMIT small_config * LSM_SST_LEVEL_RATIO small_config ^ 31
     = (2 :: nat) ^ 64
   \<and> get_sst_size small_config 31 = 0
   \<and> estimated_size small_config three_records = 9
   \<and> built_records (compact_build small_config deep_engine 30
        (lvl (level_sst_ids deep_engine) 30) (lvl (level_sst_ids deep_engine) 31))
       = [[(''a'', ''1'')], [(''b'', ''2'')], [(''c'', ''3'')]]"
proof -
  have l: "lvl (level_sst_ids deep_engine) 30 = [1]" "lvl (level_sst_ids deep_engine) 31 = []"
    by (simp_all add: deep_engine_def lvl_def)
  have s: "ssts deep_engine (Suc 0) = Some (example_sst 1 30 three_records)"
    by (simp add: deep_engine_def)
  have lk: "lookup_ssts (ssts deep_engine) [Suc 0] = Some [example_sst 1 30 three_records]"
    "lookup_ssts (ssts deep_engine) [] = Some []"
    by (simp_all add: s)
  have tg: "compact_target small_config 30 = 0"
    using get_sst_size_31 by (simp add: compact_target_def)
  have cur: "compact_cursor 30 [example_sst (Suc 0) 30 three_records] [] = three_records"
    by (simp add: compact_cursor_def ConcactIterator_def example_sst_def three_records_def)
  have cb: "compact_build small_config deep_engine 30 [Suc 0] []
      = gen_sst_from_iter small_config deep_engine three_records 0 31"
    unfolding compact_build_target lk by (simp add: tg cur)
  have "built_records (gen_sst_from_iter small_config deep_engine three_records 0 31)
      = [[(''a'', ''1'')], [(''b'', ''2'')], [(''c'', ''3'')]]"
    by (simp add: gen_sst_from_iter_def three_records_def Let_def build_def built_records_def
        small_config_def example_size_def sl_size_def)
  with cb have "built_records (compact_build small_config deep_engine 30 [1] [])
      = [[(''a'', ''1'')], [(''b'', ''2'')], [(''c'', ''3'')]]"
    by simp
  moreover have "estimated_size small_config three_records = 9"
    by (simp add: small_config_def example_size_def sl_size_def three_records_def)
  moreover have "LSM_PER_MEM_SIZE_LIMIT small_config * LSM_SST_LEVEL_RATIO small_config ^ 31
     = (2 :: nat) ^ 64"
    by (simp add: small_config_def)
  ultimately show ?thesis using get_sst_size_31 by (simp add: l)
qed

text \<open>
  Claim C8, amended. \<open>gen_sst_from_iter\<close> finalizes the builder exactly when its
  estimated size has reached the target after an add: every SST but the last has
  reached the target, in no SST had the records before the last one reached it, and
  the SSTs hold the records of the cursor in order (a remainder is dropped only if the
  builder reports size 0 for it). \<open>get_sst_size 0\<close> is the per-memtable limit;
  \<open>get_sst_size level\<close> is, from level 1 on, the limit times the value of
  \<open>std::pow(ratio, level)\<close> modulo \<open>2 ^ 64\<close>, which is the limit times \<open>ratio ^ level\<close>
  where \<open>std::pow\<close> returns that power and the product is below \<open>2 ^ 64\<close>. The target
  of a compaction from level 0 is the limit times the ratio modulo \<open>2 ^ 64\<close>, the
  target of a compaction from \<open>src_level\<close> \<open>\<ge> 1\<close> is \<open>get_sst_size (src_level + 1)\<close>.
\<close>

theorem gen_sst_rolls_over_at_target:
  assumes "gen_sst_from_iter c s iter t lv = Ok (new_ssts, s')"
  shows "(\<forall>sst \<in> set (butlast new_ssts). rolled_at_target c t sst)
       \<and> (\<forall>sst \<in> set new_ssts. below_target c t (butlast (sst_entries sst)))
       \<and> (\<exists>rest. iter = concat (map sst_entries new_ssts) @ rest
             \<and> (rest = [] \<or> estimated_size c rest = 0))
       \<and> get_sst_size c 0 = LSM_PER_MEM_SIZE_LIMIT c
       \<and> (\<forall>level. 1 \<le> level \<longrightarrow>
             get_sst_size c level =
               (LSM_PER_MEM_SIZE_LIMIT c * std_pow c (LSM_SST_LEVEL_RATIO c) level) mod 2 ^ 64)
       \<and> (\<forall>level. 1 \<le> level
               \<and> std_pow c (LSM_SST_LEVEL_RATIO c) level = LSM_SST_LEVEL_RATIO c ^ level
               \<and> LSM_PER_MEM_SIZE_LIMIT c * LSM_SST_LEVEL_RATIO c ^ level < 2 ^ 64 \<longrightarrow>
             get_sst_size c level = LSM_PER_MEM_SIZE_LIMIT c * LSM_SST_LEVEL_RATIO c ^ level)
       \<and> compact_target c 0 = (LSM_PER_MEM_SIZE_LIMIT c * LSM_SST_LEVEL_RATIO c) mod 2 ^ 64
       \<and> (\<forall>src_level. 1 \<le> src_level \<longrightarrow>
             compact_target c src_level = get_sst_size c (src_level + 1))
       \<and> (\<forall>st src_level lx_ids ly_ids xs ys.
             lookup_ssts (ssts st) lx_ids = Some xs \<and> lookup_ssts (ssts st) ly_ids = Some ys \<longrightarrow>
             compact_build c st src_level lx_ids ly_ids =
               gen_sst_from_iter c st (compact_cursor src_level xs ys)
                 (compact_target c src_level) (src_level + 1))"
proof -
  have a: "get_sst_size c 0 = LSM_PER_MEM_SIZE_LIMIT c"
    by (simp add: get_sst_size_def)
  have b: "get_sst_size c level =
      (LSM_PER_MEM_SIZE_LIMIT c * std_pow c (LSM_SST_LEVEL_RATIO c) level) mod 2 ^ 64"
    if "1 \<le> level" for level
    using that by (simp add: get_sst_size_def size_t_mul_mod)
  have c: "get_sst_size c level = LSM_PER_MEM_SIZE_LIMIT c * LSM_SST_LEVEL_RATIO c ^ level"
    if "1 \<le> level" "std_pow c (LSM_SST_LEVEL_RATIO c) level = LSM_SST_LEVEL_RATIO c ^ level"
      "LSM_PER_MEM_SIZE_LIMIT c * LSM_SST_LEVEL_RATIO c ^ level < 2 ^ 64" for level
    using that by (simp add: get_sst_size_def size_t_mul_exact)
  have d: "compact_target c 0 = (LSM_PER_MEM_SIZE_LIMIT c * LSM_SST_LEVEL_RATIO c) mod 2 ^ 64"
    by (simp add: compact_target_def size_t_mul_mod)
  have e: "compact_target c src_level = get_sst_size c (src_level + 1)"
    if "1 \<le> src_level" for src_level
    using that by (simp add: compact_target_def)
  have f: "compact_build c st src_level lx_ids ly_ids =
      gen_sst_from_iter c st (compact_cursor src_level xs ys)
        (compact_target c src_level) (src_level + 1)"
    if "lookup_ssts (ssts st) lx_ids = Some xs" "lookup_ssts (ssts st) ly_ids = Some ys"
    for st src_level lx_ids ly_ids xs ys
    using that by (simp add: compact_build_target)
  from gen_sst_from_iter_chunks[OF assms] a b c d e f show ?thesis by blast
qed

theorem gen_sst_rolls_over_at_target_witness:
  "(case gen_sst_from_iter small_config empty_engine three_records 6 1 of
      Ok (new_ssts, s') \<Rightarrow>
        map sst_entries new_ssts = [[(''a'', ''1''), (''b'', ''2'')], [(''c'', ''3'')]]
        \<and> (\<forall>sst \<in> set (butlast new_ssts). rolled_at_target small_config 6 sst)
        \<and> (\<forall>sst \<in> set new_ssts. below_target small_config 6 (butlast (sst_entries sst)))
        \<and> get_sst_size small_config 2 = 64
        \<and> compact_target small_config 0 = 16
    | Fail e s' \<Rightarrow> False)"
proof -
  obtain new_ssts s' where run: "gen_sst_from_iter small_config empty_engine three_records 6 1 = Ok (new_ssts, s')"
    and e: "map sst_entries new_ssts = [[(''a'', ''1''), (''b'', ''2'')], [(''c'', ''3'')]]"
    by (simp add: gen_sst_from_iter_def three_records_def small_config_def example_size_def
        sl_size_def build_def Let_def empty_engine_def)
  have p: "(1 :: nat) \<le> 2
      \<and> std_pow small_config (LSM_SST_LEVEL_RATIO small_config) 2
          = LSM_SST_LEVEL_RATIO small_config ^ 2
      \<and> LSM_PER_MEM_SIZE_LIMIT small_config * LSM_SST_LEVEL_RATIO small_config ^ 2 < 2 ^ 64"
    "LSM_PER_MEM_SIZE_LIMIT small_config * LSM_SST_LEVEL_RATIO small_config ^ 2 = 64"
    "(LSM_PER_MEM_SIZE_LIMIT small_config * LSM_SST_LEVEL_RATIO small_config) mod 2 ^ 64 = 16"
    by (simp_all add: small_config_def)
  from gen_sst_rolls_over_at_target[OF run] p(1)
  have "get_sst_size small_config 2
      = LSM_PER_MEM_SIZE_LIMIT small_config * LSM_SST_LEVEL_RATIO small_config ^ 2"
    by blast
  with gen_sst_rolls_over_at_target[OF run] run e p(2,3) show ?thesis by simp
qed

subsection \<open>The heap iterator\<close>

lemma item_le_total: "item_le a b \<or> item_le b a"
  by (auto simp: item_le_def item_greater_def)

lemma item_le_trans: "item_le a b \<Longrightarrow> item_le b c \<Longrightarrow> item_le a c"
  by (auto simp: item_le_def item_greater_def split: if_splits)

lemma item_le_key: "item_le a b \<Longrightarrow> si_key a \<le> si_key b"
  by (auto simp: item_le_def item_greater_def split: if_splits)

lemma item_le_idx: "item_le a b \<Longrightarrow> si_key a = si_key b \<Longrightarrow> si_idx a \<le> si_idx b"
  by (auto simp: item_le_def item_greater_def split: if_splits)

lemma set_heap_push: "set (heap_push x h) = insert x (set h)"
  by (induction h) auto

lemma sorted_heap_push:
  "sorted_wrt item_le h \<Longrightarrow> sorted_wrt item_le (heap_push x h)"
proof (induction h)
  case Nil
  then show ?case by simp
next
  case (Cons y ys)
  show ?case
  proof (cases "item_greater y x")
    case True
    then have xy: "item_le x y" by (auto simp: item_le_def item_greater_def split: if_splits)
    with Cons.prems have "\<forall>z \<in> set ys. item_le x z" by (auto intro: item_le_trans)
    with True xy Cons.prems show ?thesis by simp
  next
    case False
    then have "item_le y x" by (simp add: item_le_def)
    with False Cons show ?thesis by (auto simp: set_heap_push)
  qed
qed

lemma heap_of_foldl:
  "sorted_wrt item_le h \<Longrightarrow>
     sorted_wrt item_le (foldl (\<lambda>h x. heap_push x h) h items)
     \<and> set (foldl (\<lambda>h x. heap_push x h) h items) = set h \<union> set items"
  by (induction items arbitrary: h) (auto simp: sorted_heap_push set_heap_push)

lemma sorted_heap_of: "sorted_wrt item_le (heap_of items)"
  using heap_of_foldl[of "[]" items] by (simp add: heap_of_def)

lemma set_heap_of: "set (heap_of items) = set items"
  using heap_of_foldl[of "[]" items] by (simp add: heap_of_def)

lemma find_dropWhile_same_key:
  "k \<noteq> k' \<Longrightarrow> find (\<lambda>y. si_key y = k) (dropWhile (\<lambda>y. si_key y = k') xs)
     = find (\<lambda>y. si_key y = k) xs"
  by (induction xs) auto

lemma heap_drain_map_of:
  "map_of (heap_drain h) k = map_option si_value (find (\<lambda>x. si_key x = k) h)"
proof (induction h rule: heap_drain.induct)
  case 1
  then show ?case by simp
next
  case (2 x xs)
  then show ?case by (auto simp: find_dropWhile_same_key)
qed

lemma dropWhile_keys_greater:
  "sorted_wrt item_le (x # xs) \<Longrightarrow>
     \<forall>y \<in> set (dropWhile (\<lambda>y. si_key y = si_key x) xs). si_key x < si_key y"
proof (induction xs)
  case Nil
  then show ?case by simp
next
  case (Cons a xs)
  have sx: "sorted_wrt item_le (x # xs)" using Cons.prems by auto
  show ?case
  proof (cases "si_key a = si_key x")
    case True
    with Cons.IH[OF sx] show ?thesis by simp
  next
    case False
    from Cons.prems have "si_key x \<le> si_key a" by (auto dest: item_le_key)
    with False have lt: "si_key x < si_key a" by simp
    from Cons.prems have "\<forall>y \<in> set xs. si_key a \<le> si_key y" by (auto dest: item_le_key)
    with lt False show ?thesis by auto
  qed
qed

lemma sorted_dropWhile: "sorted_wrt P xs \<Longrightarrow> sorted_wrt P (dropWhile Q xs)"
  by (induction xs) auto

lemma heap_drain_keys_subset: "fst ` set (heap_drain h) \<subseteq> si_key ` set h"
proof (induction h rule: heap_drain.induct)
  case 1
  then show ?case by simp
next
  case (2 x xs)
  have "set (dropWhile (\<lambda>y. si_key y = si_key x) xs) \<subseteq> set xs"
    by (auto dest: set_dropWhileD)
  with 2 show ?case by auto
qed

lemma heap_drain_sorted:
  "sorted_wrt item_le h \<Longrightarrow> sorted_wrt (<) (map fst (heap_drain h))"
proof (induction h rule: heap_drain.induct)
  case 1
  then show ?case by simp
next
  case (2 x xs)
  let ?d = "dropWhile (\<lambda>y. si_key y = si_key x) xs"
  have "sorted_wrt item_le ?d" by (rule sorted_dropWhile) (use "2.prems" in simp)
  then have ih: "sorted_wrt (<) (map fst (heap_drain ?d))" by (rule "2.IH")
  have "\<forall>k \<in> fst ` set (heap_drain ?d). si_key x < k"
    using heap_drain_keys_subset[of ?d] dropWhile_keys_greater[OF "2.prems"] by auto
  with ih show ?case by auto
qed

lemma find_first_min_idx:
  assumes "sorted_wrt item_le h" "find (\<lambda>x. si_key x = k) h = Some x" "y \<in> set h" "si_key y = k"
  shows "si_idx x \<le> si_idx y"
proof -
  from assms(2) obtain i where i: "i < length h" "si_key (h ! i) = k" "x = h ! i"
    "\<forall>j < i. si_key (h ! j) \<noteq> k"
    by (auto simp: find_Some_iff)
  from assms(3) obtain j where j: "j < length h" "y = h ! j"
    by (auto simp: in_set_conv_nth)
  with i assms(4) have "\<not> j < i" by auto
  then consider "j = i" | "i < j" by linarith
  then show ?thesis
  proof cases
    case 1 with i j show ?thesis by simp
  next
    case 2
    with assms(1) j have "item_le (h ! i) (h ! j)" by (simp add: sorted_wrt_iff_nth_less)
    with i j assms(4) show ?thesis by (auto dest: item_le_idx)
  qed
qed

lemma best_None: "best srcs k = None \<longleftrightarrow> (\<forall>(i, es) \<in> set srcs. map_of es k = None)"
  by (induction srcs k rule: best.induct) (auto split: option.splits)

lemma best_Some:
  "best srcs k = Some (i, v) \<Longrightarrow>
     (\<exists>es. (i, es) \<in> set srcs \<and> map_of es k = Some v)
     \<and> (\<forall>(j, es') \<in> set srcs. map_of es' k \<noteq> None \<longrightarrow> i \<le> j)"
proof (induction srcs k arbitrary: i v rule: best.induct)
  case (1 k)
  then show ?case by simp
next
  case (2 i' es rest k)
  show ?case
  proof (cases "map_of es k")
    case None
    with 2 show ?thesis by auto
  next
    case (Some w)
    show ?thesis
    proof (cases "best rest k")
      case None
      with Some "2.prems" have "i = i'" "v = w" by auto
      with Some None show ?thesis by (auto simp: best_None)
    next
      case (Some jw)
      obtain j u where jw: "jw = (j, u)" by (cases jw)
      from "2.IH"(2)[OF \<open>map_of es k = Some w\<close>] Some jw
      have ih: "(\<exists>es. (j, es) \<in> set rest \<and> map_of es k = Some u)
         \<and> (\<forall>(j', es') \<in> set rest. map_of es' k \<noteq> None \<longrightarrow> j \<le> j')" by simp
      show ?thesis
      proof (cases "j < i'")
        case True
        with "2.prems" \<open>map_of es k = Some w\<close> Some jw have "i = j" "v = u" by auto
        with ih True show ?thesis by auto
      next
        case False
        with "2.prems" \<open>map_of es k = Some w\<close> Some jw have "i = i'" "v = w" by auto
        with ih False \<open>map_of es k = Some w\<close> show ?thesis by fastforce
      qed
    qed
  qed
qed

lemma in_source_items:
  "x \<in> source_items srcs \<longleftrightarrow>
     (\<exists>es. (si_idx x, es) \<in> set srcs \<and> (si_key x, si_value x) \<in> set es) \<and> si_level x = 0"
  by (cases x) (auto simp: source_items_def)

lemma find_key_None: "find (\<lambda>x. si_key x = k) h = None \<longleftrightarrow> k \<notin> si_key ` set h"
  by (induction h) auto

lemma find_key_Some: "find (\<lambda>x. si_key x = k) h = Some x \<Longrightarrow> x \<in> set h \<and> si_key x = k"
  by (induction h) (auto split: if_splits)

lemma heap_drain_best:
  assumes items: "set items = source_items srcs"
    and di: "distinct (map fst srcs)"
    and dk: "\<forall>(i, es) \<in> set srcs. distinct (map fst es)"
  shows "map_of (heap_drain (heap_of items)) k = map_option snd (best srcs k)"
proof (cases "find (\<lambda>x. si_key x = k) (heap_of items)")
  case None
  then have nokey: "k \<notin> si_key ` set items"
    by (simp add: find_key_None set_heap_of)
  have "\<forall>(i, es) \<in> set srcs. map_of es k = None"
  proof (clarify)
    fix i es assume ies: "(i, es) \<in> set srcs"
    show "map_of es k = None"
    proof (rule ccontr)
      assume "map_of es k \<noteq> None"
      then obtain v where "map_of es k = Some v" by auto
      then have "(k, v) \<in> set es" by (rule map_of_SomeD)
      with ies have "\<lparr>si_key = k, si_value = v, si_idx = i, si_level = 0\<rparr> \<in> source_items srcs"
        by (auto simp: in_source_items)
      then have "si_key \<lparr>si_key = k, si_value = v, si_idx = i, si_level = 0\<rparr> \<in> si_key ` set items"
        unfolding items by (rule imageI)
      with nokey show False by simp
    qed
  qed
  then have "best srcs k = None" by (simp add: best_None)
  with None show ?thesis by (simp add: heap_drain_map_of)
next
  case (Some x)
  from find_key_Some[OF Some] have xin: "x \<in> source_items srcs" and xk: "si_key x = k"
    by (simp_all add: set_heap_of items)
  from xin obtain es where ies: "(si_idx x, es) \<in> set srcs" and kv: "(k, si_value x) \<in> set es"
    using xk by (auto simp: in_source_items)
  from dk ies have des: "distinct (map fst es)" by auto
  with kv have mv: "map_of es k = Some (si_value x)" by simp
  have "best srcs k \<noteq> None"
  proof
    assume "best srcs k = None"
    then have "\<forall>(i, es) \<in> set srcs. map_of es k = None" by (simp add: best_None)
    with ies have "map_of es k = None" by blast
    with mv show False by simp
  qed
  then obtain i' v' where b: "best srcs k = Some (i', v')" by auto
  from best_Some[OF b] obtain es' where ies': "(i', es') \<in> set srcs" "map_of es' k = Some v'"
    and least: "\<forall>(j, es'') \<in> set srcs. map_of es'' k \<noteq> None \<longrightarrow> i' \<le> j" by blast
  from least ies mv have le1: "i' \<le> si_idx x" by fastforce
  from ies' have "(k, v') \<in> set es'" by (auto dest: map_of_SomeD)
  with ies' have "\<lparr>si_key = k, si_value = v', si_idx = i', si_level = 0\<rparr> \<in> source_items srcs"
    by (auto simp: in_source_items)
  then have "\<lparr>si_key = k, si_value = v', si_idx = i', si_level = 0\<rparr> \<in> set (heap_of items)"
    by (simp add: set_heap_of items)
  from find_first_min_idx[OF sorted_heap_of Some this] have "si_idx x \<le> i'" by simp
  with le1 have ieq: "si_idx x = i'" by simp
  have "es = es'"
    using di ies ies'(1) unfolding ieq by (rule eq_key_imp_eq_value)
  with mv ies' have "si_value x = v'" by simp
  with Some b show ?thesis by (simp add: heap_drain_map_of)
qed

lemma best_sorted_first_hit:
  "sorted_wrt (<) (map fst srcs) \<Longrightarrow>
     map_option snd (best srcs k) = first_hit (map (\<lambda>(i, es). map_of es k) srcs)"
proof (induction srcs)
  case Nil
  then show ?case by simp
next
  case (Cons a srcs)
  obtain i es where a: "a = (i, es)" by (cases a)
  show ?case
  proof (cases "map_of es k")
    case None
    with Cons a show ?thesis by simp
  next
    case (Some v)
    show ?thesis
    proof (cases "best srcs k")
      case None
      with Some a show ?thesis by simp
    next
      case (Some jw)
      obtain j w where jw: "jw = (j, w)" by (cases jw)
      from best_Some[of srcs k j w] Some jw have "j \<in> fst ` set srcs" by force
      with Cons.prems a have "i < j" by auto
      with Some jw \<open>map_of es k = Some v\<close> a show ?thesis by simp
    qed
  qed
qed

subsection \<open>Two-way merge and the cursor of the MemTable\<close>

lemma ascending_Cons: "ascending (a # as) \<longleftrightarrow> (\<forall>x \<in> set as. fst a < fst x) \<and> ascending as"
  by (auto simp: ascending_def)

lemma ascending_distinct: "ascending xs \<Longrightarrow> distinct (map fst xs)"
  by (simp add: ascending_def strict_sorted_iff)

lemma ascending_map_of_None: "ascending (a # as) \<Longrightarrow> k < fst a \<Longrightarrow> map_of (a # as) k = None"
  by (cases a) (force simp: ascending_Cons map_of_eq_None_iff)

lemma two_merge_set: "set (TwoMergeIterator as bs) \<subseteq> set as \<union> set bs"
  by (induction as bs rule: TwoMergeIterator.induct) auto

lemma two_merge_keys:
  "fst ` set (TwoMergeIterator as bs) \<subseteq> fst ` set as \<union> fst ` set bs"
  using two_merge_set[of as bs] by blast

lemma two_merge_ascending:
  "ascending as \<Longrightarrow> ascending bs \<Longrightarrow> ascending (TwoMergeIterator as bs)"
proof (induction as bs rule: TwoMergeIterator.induct)
  case (1 bs)
  then show ?case by simp
next
  case (2 a as)
  then show ?case by simp
next
  case (3 a as b bs)
  consider "fst a < fst b" | "fst b < fst a" | "fst a = fst b"
    using linorder_cases[of "fst a" "fst b"] by blast
  then show ?case
  proof cases
    case 1
    have "\<forall>x \<in> set (TwoMergeIterator as (b # bs)). fst a < fst x"
    proof
      fix x assume "x \<in> set (TwoMergeIterator as (b # bs))"
      then have "fst x \<in> fst ` set as \<union> fst ` set (b # bs)"
        using two_merge_keys[of as "b # bs"] by blast
      with 1 "3.prems" show "fst a < fst x" by (auto simp: ascending_Cons)
    qed
    with 1 3 show ?thesis by (simp add: ascending_Cons)
  next
    case 2
    have "\<forall>x \<in> set (TwoMergeIterator (a # as) bs). fst b < fst x"
    proof
      fix x assume "x \<in> set (TwoMergeIterator (a # as) bs)"
      then have "fst x \<in> fst ` set (a # as) \<union> fst ` set bs"
        using two_merge_keys[of "a # as" bs] by blast
      with 2 "3.prems" show "fst b < fst x" by (auto simp: ascending_Cons)
    qed
    with 2 3 show ?thesis by (simp add: ascending_Cons)
  next
    case 3
    have "\<forall>x \<in> set (TwoMergeIterator as bs). fst a < fst x"
    proof
      fix x assume "x \<in> set (TwoMergeIterator as bs)"
      then have "fst x \<in> fst ` set as \<union> fst ` set bs"
        using two_merge_keys[of as bs] by blast
      with 3 "3.prems" show "fst a < fst x" by (auto simp: ascending_Cons)
    qed
    with 3 "3.IH"(3) "3.prems" show ?thesis by (simp add: ascending_Cons)
  qed
qed

lemma two_merge_map_of:
  "ascending as \<Longrightarrow> ascending bs \<Longrightarrow>
     map_of (TwoMergeIterator as bs) k =
       (case map_of as k of Some v \<Rightarrow> Some v | None \<Rightarrow> map_of bs k)"
proof (induction as bs rule: TwoMergeIterator.induct)
  case (1 bs)
  then show ?case by simp
next
  case (2 a as)
  then show ?case by (simp split: option.splits)
next
  case (3 a as b bs)
  obtain ka va where a: "a = (ka, va)" by (cases a)
  obtain kb vb where b: "b = (kb, vb)" by (cases b)
  have as: "ascending as" and bs: "ascending bs" using "3.prems" by (auto simp: ascending_Cons)
  consider "ka < kb" | "kb < ka" | "ka = kb"
    using linorder_cases[of ka kb] by blast
  then show ?case
  proof cases
    case 1
    with "3.IH"(1) "3.prems" as a b show ?thesis by simp
  next
    case 2
    have "k = kb \<Longrightarrow> map_of (a # as) k = None"
      using ascending_map_of_None[OF "3.prems"(1), of k] 2 a by simp
    with 2 "3.IH"(2) "3.prems" bs a b show ?thesis by (auto split: option.splits)
  next
    case 3
    with "3.IH"(3)[OF _ _ as bs] have "map_of (TwoMergeIterator as bs) k =
       (case map_of as k of Some v \<Rightarrow> Some v | None \<Rightarrow> map_of bs k)"
      using a b by simp
    with 3 a b show ?thesis by (auto split: option.splits)
  qed
qed

lemma best_sst_source:
  "best (map sst_source xs) k = map_option (\<lambda>(j, w). (- int j, w)) (newest xs k)"
  by (induction xs) (auto simp: sst_source_def sst_get_def split: option.splits)

lemma first_hit_frozen: "first_hit (map (\<lambda>t. sl_get t k) ts) = frozen_get ts k"
  by (induction ts) (auto split: option.splits)

lemma mt_get_first_hit:
  "mt_get m k = first_hit (map (\<lambda>t. sl_get t k) (current_table m # frozen_tables m))"
  by (simp add: mt_get_def first_hit_frozen split: option.splits)

lemma set_table_items:
  "set (table_items i t) = {\<lparr>si_key = k, si_value = v, si_idx = int i, si_level = 0\<rparr> | k v. (k, v) \<in> set t}"
  by (auto simp: table_items_def)

lemma in_table_sources:
  "(i, es) \<in> set (table_sources tables) \<longleftrightarrow> (\<exists>n < length tables. i = int n \<and> es = tables ! n)"
  by (auto simp: table_sources_def)

lemma table_sources_items:
  "set (concat (map (\<lambda>i. table_items i (tables ! i)) [0..<length tables]))
     = source_items (table_sources tables)"
proof (rule set_eqI)
  fix x
  have "x \<in> set (concat (map (\<lambda>i. table_items i (tables ! i)) [0..<length tables]))
      \<longleftrightarrow> (\<exists>i < length tables. x \<in> set (table_items i (tables ! i)))"
    by auto
  also have "\<dots> \<longleftrightarrow> (\<exists>i < length tables.
        (si_key x, si_value x) \<in> set (tables ! i) \<and> si_idx x = int i \<and> si_level x = 0)"
    by (cases x) (auto simp: set_table_items)
  also have "\<dots> \<longleftrightarrow> x \<in> source_items (table_sources tables)"
    by (auto simp: in_source_items in_table_sources)
  finally show "x \<in> set (concat (map (\<lambda>i. table_items i (tables ! i)) [0..<length tables]))
      \<longleftrightarrow> x \<in> source_items (table_sources tables)" .
qed

lemma table_sources_sorted: "sorted_wrt (<) (map fst (table_sources tables))"
  by (simp add: table_sources_def sorted_wrt_map sorted_wrt_iff_nth_less)

lemma table_sources_first_hit:
  "first_hit (map (\<lambda>(i, es). map_of es k) (table_sources tables))
     = first_hit (map (\<lambda>t. sl_get t k) tables)"
proof -
  have "map (\<lambda>(i, es). map_of es k) (table_sources tables) = map (\<lambda>t. sl_get t k) tables"
    by (rule nth_equalityI) (simp_all add: table_sources_def sl_get_def)
  then show ?thesis by simp
qed

lemma mt_begin_correct:
  assumes "\<forall>t \<in> set (current_table m # frozen_tables m). ascending t"
  shows "ascending (mt_begin m) \<and> map_of (mt_begin m) k = mt_get m k"
proof -
  let ?tables = "current_table m # frozen_tables m"
  let ?items = "concat (map (\<lambda>i. table_items i (?tables ! i)) [0..<length ?tables])"
  have b: "mt_begin m = heap_drain (heap_of ?items)"
    by (simp add: mt_begin_def Let_def del: upt_Suc)
  have d1: "distinct (map fst (table_sources ?tables))"
    using table_sources_sorted[of ?tables] by (simp add: strict_sorted_iff del: upt_Suc)
  have d2: "\<forall>(i, es) \<in> set (table_sources ?tables). distinct (map fst es)"
  proof (clarify)
    fix i es assume "(i, es) \<in> set (table_sources ?tables)"
    then obtain n where "n < length ?tables" "es = ?tables ! n"
      unfolding in_table_sources by blast
    then have "es \<in> set ?tables" using nth_mem by blast
    with assms show "distinct (map fst es)" by (blast intro: ascending_distinct)
  qed
  have "map_of (mt_begin m) k = map_option snd (best (table_sources ?tables) k)"
    unfolding b by (rule heap_drain_best[OF table_sources_items d1 d2])
  also have "\<dots> = first_hit (map (\<lambda>t. sl_get t k) ?tables)"
    by (simp only: best_sorted_first_hit[OF table_sources_sorted] table_sources_first_hit)
  finally have "map_of (mt_begin m) k = mt_get m k" by (simp add: mt_get_first_hit)
  moreover have "ascending (mt_begin m)"
    unfolding b ascending_def by (rule heap_drain_sorted[OF sorted_heap_of])
  ultimately show ?thesis by simp
qed

subsection \<open>Range scans\<close>

lemma in_sst_iter_items:
  "x \<in> set (sst_iter_items it) \<longleftrightarrow>
     (si_key x, si_value x) \<in> set (drop (snd it) (sst_entries (fst it)))
     \<and> si_idx x = - int (sst_id (fst it)) \<and> si_level x = 0"
  by (cases x) (auto simp: sst_iter_items_def)

lemma in_sst_sources:
  "x \<in> source_items (map sst_source xs) \<longleftrightarrow>
     (\<exists>sst \<in> set xs. (si_key x, si_value x) \<in> set (sst_entries sst)
        \<and> si_idx x = - int (sst_id sst)) \<and> si_level x = 0"
  by (auto simp: in_source_items sst_source_def)

lemma begin_items:
  "set (concat (map sst_iter_items (map sst_begin xs))) = source_items (map sst_source xs)"
proof (rule set_eqI)
  fix x
  show "x \<in> set (concat (map sst_iter_items (map sst_begin xs)))
      \<longleftrightarrow> x \<in> source_items (map sst_source xs)"
    unfolding in_sst_sources by (auto simp: in_sst_iter_items sst_begin_def)
qed

lemma in_drop_some_position:
  "(\<exists>pos \<in> {0..<length es}. e \<in> set (drop pos es)) \<longleftrightarrow> e \<in> set es"
proof
  assume "\<exists>pos \<in> {0..<length es}. e \<in> set (drop pos es)"
  then show "e \<in> set es" by (auto dest: in_set_dropD)
next
  assume e: "e \<in> set es"
  then have "0 < length es" by (cases es) auto
  with e show "\<exists>pos \<in> {0..<length es}. e \<in> set (drop pos es)" by (intro bexI[of _ 0]) simp_all
qed

lemma positions_items:
  "set (concat (map sst_iter_items (concat (map sst_positions xs))))
     = source_items (map sst_source xs)"
proof (rule set_eqI)
  fix x
  have "x \<in> set (concat (map sst_iter_items (concat (map sst_positions xs))))
      \<longleftrightarrow> (\<exists>sst \<in> set xs. \<exists>pos \<in> {0..<length (sst_entries sst)}.
             x \<in> set (sst_iter_items (sst, pos)))"
    by (auto simp: sst_positions_def)
  also have "\<dots> \<longleftrightarrow> (\<exists>sst \<in> set xs.
        (\<exists>pos \<in> {0..<length (sst_entries sst)}.
           (si_key x, si_value x) \<in> set (drop pos (sst_entries sst)))
        \<and> si_idx x = - int (sst_id sst) \<and> si_level x = 0)"
    by (auto simp: in_sst_iter_items)
  also have "\<dots> \<longleftrightarrow> x \<in> source_items (map sst_source xs)"
    unfolding in_drop_some_position in_sst_sources by auto
  finally show "x \<in> set (concat (map sst_iter_items (concat (map sst_positions xs))))
      \<longleftrightarrow> x \<in> source_items (map sst_source xs)" .
qed

lemma sst_sources_distinct:
  "distinct (map sst_id xs) \<Longrightarrow> distinct (map fst (map sst_source xs))"
proof -
  assume d: "distinct (map sst_id xs)"
  have "map fst (map sst_source xs) = map (\<lambda>n. - int n) (map sst_id xs)"
    by (simp add: sst_source_def)
  moreover have "distinct (map (\<lambda>n. - int n) (map sst_id xs))"
    using d by (subst distinct_map) (auto simp: inj_on_def)
  ultimately show ?thesis by (simp only:)
qed

lemma sst_heap_newest:
  assumes items: "set items = source_items (map sst_source xs)"
    and d: "distinct (map sst_id xs)"
    and a: "\<forall>sst \<in> set xs. ascending (sst_entries sst)"
  shows "ascending (heap_drain (heap_of items))
       \<and> map_of (heap_drain (heap_of items)) k = map_option snd (newest xs k)"
proof -
  have dk: "\<forall>(i, es) \<in> set (map sst_source xs). distinct (map fst es)"
    using a by (auto simp: sst_source_def ascending_distinct)
  have "map_of (heap_drain (heap_of items)) k = map_option snd (best (map sst_source xs) k)"
    by (rule heap_drain_best[OF items sst_sources_distinct[OF d] dk])
  also have "\<dots> = map_option snd (newest xs k)"
    by (cases "newest xs k") (auto simp: best_sst_source)
  finally have "map_of (heap_drain (heap_of items)) k = map_option snd (newest xs k)" .
  moreover have "ascending (heap_drain (heap_of items))"
    unfolding ascending_def by (rule heap_drain_sorted[OF sorted_heap_of])
  ultimately show ?thesis by simp
qed

text \<open>
  Claim C6. The heap merge over the skiplists of the MemTable, the heap merge over
  level-0 SSTs and the two-merge cursor returned by \<open>begin\<close> each emit strictly
  ascending keys; the value paired with a key is the one of the newest input that
  holds the key: the active skiplist before the frozen ones from newest to oldest,
  the SST with the largest id among SSTs, and the MemTable before the SSTs.
\<close>

theorem merged_cursors_ascending_newest_wins:
  assumes "merge_inputs_ok s l0"
  shows "ascending (mt_begin (memtable s))
       \<and> map_of (mt_begin (memtable s)) k = mt_get (memtable s) k
       \<and> ascending (heap_drain (merge_sst_iterator (map sst_begin l0)))
       \<and> map_of (heap_drain (merge_sst_iterator (map sst_begin l0))) k
           = map_option snd (newest l0 k)
       \<and> (\<exists>out. engine_begin s = Inr out \<and> ascending out
             \<and> map_of out k =
                 (case mt_get (memtable s) k of
                    Some v \<Rightarrow> Some v
                  | None \<Rightarrow> map_option snd (newest l0 k)))"
proof -
  from assms have look: "lookup_ssts (ssts s) (lvl (level_sst_ids s) 0) = Some l0"
    and d: "distinct (map sst_id l0)"
    and a: "\<forall>sst \<in> set l0. ascending (sst_entries sst)"
    and t: "\<forall>t \<in> set (current_table (memtable s) # frozen_tables (memtable s)). ascending t"
    by (simp_all add: merge_inputs_ok_def)
  have mem: "ascending (mt_begin (memtable s))"
    "map_of (mt_begin (memtable s)) k = mt_get (memtable s) k"
    using mt_begin_correct[OF t] by simp_all
  have comp: "ascending (heap_drain (merge_sst_iterator (map sst_begin l0)))"
    "map_of (heap_drain (merge_sst_iterator (map sst_begin l0))) k = map_option snd (newest l0 k)"
    using sst_heap_newest[OF begin_items d a] by (simp_all add: merge_sst_iterator_def)
  let ?l0 = "heap_drain (merge_sst_iterator (concat (map sst_positions l0)))"
  have scan: "ascending ?l0" "map_of ?l0 k = map_option snd (newest l0 k)"
    using sst_heap_newest[OF positions_items d a] by (simp_all add: merge_sst_iterator_def)
  have out: "engine_begin s = Inr (TwoMergeIterator (mt_begin (memtable s)) ?l0)"
    by (simp add: engine_begin_def look)
  have "ascending (TwoMergeIterator (mt_begin (memtable s)) ?l0)"
    by (rule two_merge_ascending[OF mem(1) scan(1)])
  moreover have "map_of (TwoMergeIterator (mt_begin (memtable s)) ?l0) k =
      (case mt_get (memtable s) k of Some v \<Rightarrow> Some v | None \<Rightarrow> map_option snd (newest l0 k))"
    by (simp add: two_merge_map_of[OF mem(1) scan(1)] mem(2) scan(2) split: option.splits)
  ultimately show ?thesis using mem comp out by simp
qed

theorem merged_cursors_ascending_newest_wins_witness:
  "merge_inputs_ok scan_engine
     [example_sst 2 0 [(''c'', ''new''), (''d'', ''2'')],
      example_sst 1 0 [(''a'', ''1''), (''d'', ''1'')]]
   \<and> engine_begin scan_engine
       = Inr [(''a'', ''1''), (''b'', ''M''), (''c'', ''F''), (''d'', ''2'')]
   \<and> ascending [(''a'', ''1''), (''b'', ''M''), (''c'', ''F''), (''d'', ''2'')]
   \<and> map_of (mt_begin (memtable scan_engine)) ''b'' = mt_get (memtable scan_engine) ''b''"
proof -
  let ?l0 = "[example_sst 2 0 [(''c'', ''new''), (''d'', ''2'')],
      example_sst 1 0 [(''a'', ''1''), (''d'', ''1'')]]"
  have ok: "merge_inputs_ok scan_engine ?l0"
    by (simp add: merge_inputs_ok_def scan_engine_def lvl_def example_sst_def ascending_def)
  have run: "engine_begin scan_engine
       = Inr [(''a'', ''1''), (''b'', ''M''), (''c'', ''F''), (''d'', ''2'')]"
    by code_simp
  from merged_cursors_ascending_newest_wins[OF ok, of "''b''"] ok run show ?thesis
    by auto
qed

subsection \<open>Compaction: building, removing, registering\<close>

lemma lvl_lvl_set: "lvl (lvl_set l ids m) l' = (if l' = l then ids else lvl m l')"
  by (induction m) (auto simp: lvl_def)

lemma build_only_refl: "build_only s s"
  by (simp add: build_only_def)

lemma build_only_trans: "build_only s s1 \<Longrightarrow> build_only s1 s2 \<Longrightarrow> build_only s s2"
  by (auto simp: build_only_def)

lemma build_build_only:
  "build c (s\<lparr>cur_max_sst_id := cur_max_sst_id s + 1\<rparr>) b (cur_max_sst_id s) (get_sst_path (cur_max_sst_id s) lv) = r
   \<Longrightarrow> build_only s (case r of Ok (sst, s') \<Rightarrow> s' | Fail e s' \<Rightarrow> s')"
  by (auto simp: build_def build_only_def get_sst_path_def split: if_splits)

lemma gen_loop_build_only:
  "build_only s (case gen_loop c t lv iter b acc s of Ok (r, b', s') \<Rightarrow> s' | Fail e s' \<Rightarrow> s')"
proof (induction iter arbitrary: b acc s)
  case Nil
  then show ?case by (simp add: build_only_refl)
next
  case (Cons e iter)
  show ?case
  proof (cases "t \<le> estimated_size c (b @ [e])")
    case False
    with Cons[where b="b @ [e]" and acc=acc and s=s] show ?thesis by (simp add: Let_def)
  next
    case True
    let ?r = "build c (s\<lparr>cur_max_sst_id := cur_max_sst_id s + 1\<rparr>) (b @ [e]) (cur_max_sst_id s)
        (get_sst_path (cur_max_sst_id s) lv)"
    have bo: "build_only s (case ?r of Ok (sst, s') \<Rightarrow> s' | Fail e s' \<Rightarrow> s')"
      by (rule build_build_only) simp
    show ?thesis
    proof (cases ?r)
      case (Fail err s')
      with True bo show ?thesis by (simp add: Let_def)
    next
      case (Ok p)
      obtain sst s2 where p: "p = (sst, s2)" by (cases p)
      from Ok p bo have "build_only s s2" by simp
      from build_only_trans[OF this Cons[where b="[]" and acc="acc @ [sst]" and s=s2]] True Ok p
      show ?thesis by (simp add: Let_def)
    qed
  qed
qed

lemma gen_sst_from_iter_build_only:
  "build_only s (case gen_sst_from_iter c s iter t lv of Ok (r, s') \<Rightarrow> s' | Fail e s' \<Rightarrow> s')"
proof (cases "gen_loop c t lv iter [] [] s")
  case (Fail e s')
  with gen_loop_build_only[of s c t lv iter "[]" "[]"] show ?thesis
    by (simp add: gen_sst_from_iter_def)
next
  case (Ok p)
  obtain r b s1 where p: "p = (r, b, s1)" by (cases p)
  from Ok p gen_loop_build_only[of s c t lv iter "[]" "[]"] have s1: "build_only s s1" by simp
  show ?thesis
  proof (cases "estimated_size c b > 0")
    case False
    with Ok p s1 show ?thesis by (simp add: gen_sst_from_iter_def)
  next
    case True
    let ?r = "build c (s1\<lparr>cur_max_sst_id := cur_max_sst_id s1 + 1\<rparr>) b (cur_max_sst_id s1)
        (get_sst_path (cur_max_sst_id s1) lv)"
    have "build_only s1 (case ?r of Ok (sst, s') \<Rightarrow> s' | Fail e s' \<Rightarrow> s')"
      by (rule build_build_only) simp
    from build_only_trans[OF s1 this] Ok p True show ?thesis
      by (cases ?r) (auto simp: gen_sst_from_iter_def Let_def)
  qed
qed

lemma compact_build_build_only:
  "build_only s (case compact_build c s src_level lx_ids ly_ids of
                   Ok (r, s') \<Rightarrow> s' | Fail e s' \<Rightarrow> s')"
  using gen_sst_from_iter_build_only
  by (auto simp: compact_build_target build_only_refl split: option.splits)

text \<open>
  Claim C7, as stated: the files of the old SSTs are deleted only after the new SSTs
  are built and registered. In the compaction of level 0 of the example engine the
  new SST 5 is built first; when the four old files have been deleted and the old
  SSTs erased, SST 5 is in neither \<open>ssts\<close> nor the level map; it is registered by the
  last step.
\<close>

theorem old_files_deleted_before_registration:
  "compact_build small_config example_engine 0 [4, 3] [1, 2] = Ok ([merged_sst], after_build)
   \<and> compact_remove_old after_build 0 [4, 3] [1, 2] = Ok after_removal
   \<and> disk after_removal (4, 0) = None \<and> disk after_removal (3, 0) = None
   \<and> disk after_removal (1, 1) = None \<and> disk after_removal (2, 1) = None
   \<and> ssts after_removal 5 = None \<and> lvl (level_sst_ids after_removal) 1 = []
   \<and> compact_level small_config example_engine 0
       = Ok (compact_register after_removal 0 [merged_sst])
   \<and> ssts (compact_register after_removal 0 [merged_sst]) 5 = Some merged_sst"
proof -
  have "case compact_build small_config example_engine 0 [4, 3] [1, 2] of
          Ok (new_ssts, s1) \<Rightarrow> new_ssts = [merged_sst] | Fail e s' \<Rightarrow> False"
    by code_simp
  then have b: "compact_build small_config example_engine 0 [4, 3] [1, 2]
      = Ok ([merged_sst], after_build)"
    by (auto simp: after_build_def split: outcome.splits)
  have "case compact_remove_old after_build 0 [4, 3] [1, 2] of
          Ok s2 \<Rightarrow> True | Fail e s' \<Rightarrow> False"
    by code_simp
  then have r: "compact_remove_old after_build 0 [4, 3] [1, 2] = Ok after_removal"
    by (auto simp: after_removal_def split: outcome.splits)
  have l: "lvl (level_sst_ids example_engine) 0 = [4, 3]"
    "lvl (level_sst_ids example_engine) (0 + 1) = [1, 2]"
    by (simp_all add: example_engine_def lvl_def)
  have c: "compact_level small_config example_engine 0
      = Ok (compact_register after_removal 0 [merged_sst])"
    unfolding compact_level_def Let_def l by (simp only: b r outcome.case prod.case)
  have d: "disk after_removal (4, 0) = None" "disk after_removal (3, 0) = None"
    "disk after_removal (1, 1) = None" "disk after_removal (2, 1) = None"
    "ssts after_removal 5 = None" "lvl (level_sst_ids after_removal) 1 = []"
    "ssts (compact_register after_removal 0 [merged_sst]) 5 = Some merged_sst"
    by code_simp+
  from b r c d show ?thesis by simp
qed

subsection \<open>Sorted runs, compaction and the view of the engine\<close>

lemma ascending_append:
  "ascending (xs @ ys) \<longleftrightarrow>
     ascending xs \<and> ascending ys \<and> (\<forall>x \<in> set xs. \<forall>y \<in> set ys. fst x < fst y)"
  by (auto simp: ascending_def sorted_wrt_append)

lemma ascending_first_last:
  assumes "ascending es" "es \<noteq> []" "e \<in> set es"
  shows "fst (hd es) \<le> fst e \<and> fst e \<le> fst (last es)"
  using assms
proof (induction es)
  case Nil
  then show ?case by simp
next
  case (Cons a es)
  show ?case
  proof (cases "es = []")
    case True
    with Cons.prems show ?thesis by simp
  next
    case False
    from Cons.prems have asc: "ascending es" and lt: "\<forall>x \<in> set es. fst a < fst x"
      by (auto simp: ascending_Cons)
    from False have "last es \<in> set es" by simp
    with lt have al: "fst a < fst (last es)" by blast
    show ?thesis
    proof (cases "e = a")
      case True
      with al False show ?thesis by simp
    next
      case ne: False
      with Cons.prems have "e \<in> set es" by simp
      from Cons.IH[OF asc False this] lt \<open>e \<in> set es\<close> False show ?thesis by auto
    qed
  qed
qed

lemma first_last_keys:
  "sst_entries sst \<noteq> [] \<Longrightarrow>
     get_first_key sst = fst (hd (sst_entries sst)) \<and> get_last_key sst = fst (last (sst_entries sst))"
  by (cases "sst_entries sst") (auto simp: get_first_key_def get_last_key_def)

lemma in_range_of_member:
  assumes "ascending (sst_entries sst)" "(k, v) \<in> set (sst_entries sst)"
  shows "in_range sst k"
proof -
  from assms(2) have ne: "sst_entries sst \<noteq> []" by auto
  from ascending_first_last[OF assms(1) ne assms(2)] first_last_keys[OF ne]
  show ?thesis by (simp add: in_range_def)
qed

lemma run_ok_Cons:
  "run_ok (x # xs) \<longleftrightarrow>
     sst_entries x \<noteq> [] \<and> ascending (sst_entries x) \<and> run_ok xs
     \<and> (\<forall>e \<in> set (sst_entries x). \<forall>e' \<in> set (concat (map sst_entries xs)). fst e < fst e')"
  by (auto simp: run_ok_def ascending_append)

lemma run_ok_ascending: "run_ok xs \<Longrightarrow> sst \<in> set xs \<Longrightarrow> ascending (sst_entries sst)"
  by (induction xs) (auto simp: run_ok_Cons)

lemma run_ok_probe:
  "run_ok xs \<Longrightarrow> probe_list xs k = map_of (concat (map sst_entries xs)) k"
proof (induction xs)
  case Nil
  then show ?case by (simp add: probe_list_def)
next
  case (Cons x xs)
  from Cons.prems have ne: "sst_entries x \<noteq> []" and asc: "ascending (sst_entries x)"
    and rest: "run_ok xs"
    and lt: "\<forall>e \<in> set (sst_entries x). \<forall>e' \<in> set (concat (map sst_entries xs)). fst e < fst e'"
    by (simp_all add: run_ok_Cons)
  have ih: "probe_list xs k = map_of (concat (map sst_entries xs)) k"
    by (rule Cons.IH[OF rest])
  show ?case
  proof (cases "in_range x k")
    case True
    have "map_of (sst_entries x) k = None \<Longrightarrow> map_of (concat (map sst_entries xs)) k = None"
    proof (rule ccontr)
      assume "map_of (concat (map sst_entries xs)) k \<noteq> None"
      then obtain v where "(k, v) \<in> set (concat (map sst_entries xs))"
        by (auto dest: map_of_SomeD)
      moreover have "last (sst_entries x) \<in> set (sst_entries x)" using ne by simp
      ultimately have "fst (last (sst_entries x)) < k" using lt by fastforce
      with True first_last_keys[OF ne] show False by (auto simp: in_range_def dest: leD)
    qed
    with True show ?thesis
      by (auto simp: probe_list_def sst_get_def map_add_def split: option.splits)
  next
    case False
    have "map_of (sst_entries x) k = None"
    proof (rule ccontr)
      assume "map_of (sst_entries x) k \<noteq> None"
      then obtain v where "(k, v) \<in> set (sst_entries x)" by (auto dest: map_of_SomeD)
      from in_range_of_member[OF asc this] False show False by simp
    qed
    with False ih show ?thesis
      by (simp add: probe_list_def map_add_def split: option.splits)
  qed
qed

lemma run_ok_ranges_sorted: "run_ok xs \<Longrightarrow> ranges_sorted xs"
proof (induction xs)
  case Nil
  then show ?case by (simp add: ranges_sorted_def)
next
  case (Cons x xs)
  from Cons.prems have ne: "sst_entries x \<noteq> []" and asc: "ascending (sst_entries x)"
    and rest: "run_ok xs"
    and lt: "\<forall>e \<in> set (sst_entries x). \<forall>e' \<in> set (concat (map sst_entries xs)). fst e < fst e'"
    by (simp_all add: run_ok_Cons)
  from Cons.IH[OF rest] have ih: "ranges_sorted xs" .
  have fl: "get_first_key x \<le> get_last_key x"
    using ascending_first_last[OF asc ne, of "last (sst_entries x)"] first_last_keys[OF ne] ne
    by simp
  have "\<forall>y \<in> set xs. get_last_key x < get_first_key y"
  proof
    fix y assume y: "y \<in> set xs"
    with rest have ney: "sst_entries y \<noteq> []" by (simp add: run_ok_def)
    then have "hd (sst_entries y) \<in> set (concat (map sst_entries xs))"
      using y by (auto intro!: bexI[of _ y])
    moreover have "last (sst_entries x) \<in> set (sst_entries x)" using ne by simp
    ultimately have "fst (last (sst_entries x)) < fst (hd (sst_entries y))" using lt by blast
    with first_last_keys[OF ne] first_last_keys[OF ney] show "get_last_key x < get_first_key y"
      by simp
  qed
  with ih fl show ?case by (simp add: ranges_sorted_def)
qed

lemma gen_loop_total:
  "\<forall>sid. io_ok c sid \<Longrightarrow> \<exists>r b' s'. gen_loop c t lv iter b acc s = Ok (r, b', s')"
proof (induction iter arbitrary: b acc s)
  case Nil
  then show ?case by simp
next
  case (Cons e iter)
  then show ?case by (simp add: Let_def build_def)
qed

lemma gen_loop_nonempty:
  "gen_loop c t lv iter b acc s = Ok (r, b', s') \<Longrightarrow> \<forall>sst \<in> set acc. sst_entries sst \<noteq> []
     \<Longrightarrow> \<forall>sst \<in> set r. sst_entries sst \<noteq> []"
proof (induction iter arbitrary: b acc s)
  case Nil
  then show ?case by simp
next
  case (Cons e iter)
  show ?case
  proof (cases "t \<le> estimated_size c (b @ [e])")
    case False
    with Cons.prems(1) have "gen_loop c t lv iter (b @ [e]) acc s = Ok (r, b', s')"
      by (simp add: Let_def)
    from Cons.IH[OF this Cons.prems(2)] show ?thesis .
  next
    case True
    define sst where "sst = \<lparr>sst_id = cur_max_sst_id s,
        sst_path = get_sst_path (cur_max_sst_id s) lv, sst_entries = b @ [e]\<rparr>"
    define s2 where "s2 = s\<lparr>cur_max_sst_id := cur_max_sst_id s + 1,
        disk := (disk s)(get_sst_path (cur_max_sst_id s) lv \<mapsto> b @ [e])\<rparr>"
    have sst: "sst_entries sst = b @ [e]" by (simp add: sst_def)
    from Cons.prems(1) True have run: "gen_loop c t lv iter [] (acc @ [sst]) s2 = Ok (r, b', s')"
      by (auto simp: Let_def build_def sst_def s2_def split: if_splits)
    from Cons.prems(2) sst have "\<forall>x \<in> set (acc @ [sst]). sst_entries x \<noteq> []" by auto
    from Cons.IH[OF run this] show ?thesis .
  qed
qed

lemma gen_sst_from_iter_nonempty:
  assumes "gen_sst_from_iter c s iter t lv = Ok (new_ssts, s')" "estimated_size c [] = 0"
  shows "\<forall>sst \<in> set new_ssts. sst_entries sst \<noteq> []"
proof -
  from assms(1) obtain r b s1 where loop: "gen_loop c t lv iter [] [] s = Ok (r, b, s1)"
    by (auto simp: gen_sst_from_iter_def split: outcome.splits)
  from gen_loop_nonempty[OF loop] have r: "\<forall>sst \<in> set r. sst_entries sst \<noteq> []" by simp
  show ?thesis
  proof (cases "estimated_size c b > 0")
    case False
    with assms(1) loop r show ?thesis by (auto simp: gen_sst_from_iter_def)
  next
    case True
    with assms(2) have "b \<noteq> []" by auto
    with assms(1) loop r True show ?thesis
      by (auto simp: gen_sst_from_iter_def Let_def build_def split: if_splits)
  qed
qed

lemma gen_sst_from_iter_good:
  assumes "good_config c"
  shows "\<exists>new_ssts s'. gen_sst_from_iter c s iter t lv = Ok (new_ssts, s')
           \<and> build_only s s'
           \<and> concat (map sst_entries new_ssts) = iter
           \<and> (\<forall>sst \<in> set new_ssts. sst_entries sst \<noteq> [])
           \<and> map sst_id new_ssts = [cur_max_sst_id s ..< cur_max_sst_id s + length new_ssts]
           \<and> cur_max_sst_id s' = cur_max_sst_id s + length new_ssts"
proof -
  from assms have io: "\<forall>sid. io_ok c sid" and est: "\<forall>b. estimated_size c b = 0 \<longleftrightarrow> b = []"
    by (simp_all add: good_config_def)
  from gen_loop_total[OF io] obtain r b s1 where loop: "gen_loop c t lv iter [] [] s = Ok (r, b, s1)"
    by blast
  have "\<exists>new_ssts s'. gen_sst_from_iter c s iter t lv = Ok (new_ssts, s')"
    using loop io by (simp add: gen_sst_from_iter_def Let_def build_def)
  then obtain new_ssts s' where run: "gen_sst_from_iter c s iter t lv = Ok (new_ssts, s')"
    by blast
  from gen_sst_from_iter_build_only[of s c iter t lv] run have bo: "build_only s s'" by simp
  from gen_sst_from_iter_chunks[OF run] est
  have chunks: "concat (map sst_entries new_ssts) = iter"
    "map sst_id new_ssts = [cur_max_sst_id s ..< cur_max_sst_id s + length new_ssts]"
    "cur_max_sst_id s' = cur_max_sst_id s + length new_ssts"
    by auto
  from gen_sst_from_iter_nonempty[OF run] est
  have "\<forall>sst \<in> set new_ssts. sst_entries sst \<noteq> []" by simp
  with run bo chunks show ?thesis by blast
qed

lemma del_ssts_ok:
  "distinct ids \<Longrightarrow> \<forall>i \<in> set ids. ssts s i \<noteq> None \<Longrightarrow>
     \<exists>s'. del_ssts s ids = Ok s'
        \<and> ssts s' = (\<lambda>i. if i \<in> set ids then None else ssts s i)
        \<and> memtable s' = memtable s \<and> level_sst_ids s' = level_sst_ids s
        \<and> cur_max_sst_id s' = cur_max_sst_id s \<and> cur_max_level s' = cur_max_level s"
proof (induction ids arbitrary: s)
  case Nil
  then show ?case by simp
next
  case (Cons a ids)
  from Cons.prems obtain old where old: "ssts s a = Some old" by auto
  let ?s1 = "s\<lparr>disk := (disk s)(sst_path old := None), ssts := (ssts s)(a := None)\<rparr>"
  have "\<forall>i \<in> set ids. ssts ?s1 i \<noteq> None" using Cons.prems by auto
  from Cons.IH[OF _ this] Cons.prems(1) obtain s' where s': "del_ssts ?s1 ids = Ok s'"
    "ssts s' = (\<lambda>i. if i \<in> set ids then None else ssts ?s1 i)"
    "memtable s' = memtable ?s1" "level_sst_ids s' = level_sst_ids ?s1"
    "cur_max_sst_id s' = cur_max_sst_id ?s1" "cur_max_level s' = cur_max_level ?s1"
    by auto
  have "ssts s' = (\<lambda>i. if i \<in> set (a # ids) then None else ssts s i)"
    unfolding s'(2) by (rule ext) simp
  with s' old show ?case by simp
qed

lemma add_ssts_fields:
  "memtable (add_ssts l s new) = memtable s
   \<and> cur_max_sst_id (add_ssts l s new) = cur_max_sst_id s
   \<and> cur_max_level (add_ssts l s new) = cur_max_level s
   \<and> disk (add_ssts l s new) = disk s"
  by (induction new arbitrary: s) auto

lemma add_ssts_lvl:
  "lvl (level_sst_ids (add_ssts l s new)) l' =
     (if l' = l then lvl (level_sst_ids s) l @ map sst_id new else lvl (level_sst_ids s) l')"
  by (induction new arbitrary: s) (auto simp: lvl_lvl_set)

lemma add_ssts_ssts:
  "distinct (map sst_id new) \<Longrightarrow>
     ssts (add_ssts l s new) i =
       (case find (\<lambda>x. sst_id x = i) new of Some x \<Rightarrow> Some x | None \<Rightarrow> ssts s i)"
proof (induction new arbitrary: s)
  case Nil
  then show ?case by simp
next
  case (Cons x new)
  have "find (\<lambda>y. sst_id y = i) new = None" if "i = sst_id x"
  proof -
    from Cons.prems have "sst_id x \<notin> sst_id ` set new" by simp
    then have "\<forall>y \<in> set new. sst_id y \<noteq> i" using that by (auto simp: image_iff)
    then show ?thesis by (simp add: find_None_iff)
  qed
  with Cons show ?case by (auto split: option.splits)
qed

lemma levels_inv_registered:
  "levels_inv s \<Longrightarrow> lookup_ssts (ssts s) (lvl (level_sst_ids s) l) = Some (level_ssts s l)"
  unfolding level_ssts_def levels_inv_def
  by (intro lookup_ssts_map_filter) blast

lemma map_filter_ids:
  "\<forall>sid \<in> set ids. \<exists>sst. ss sid = Some sst \<and> sst_id sst = sid \<Longrightarrow>
     map sst_id (List.map_filter ss ids) = ids"
  by (induction ids) (auto simp: List.map_filter_simps)

lemma levels_inv_ids:
  "levels_inv s \<Longrightarrow> map sst_id (level_ssts s l) = lvl (level_sst_ids s) l"
  unfolding level_ssts_def levels_inv_def
  by (intro map_filter_ids) blast

lemma map_filter_cong_set:
  "\<forall>sid \<in> set ids. ss sid = ss' sid \<Longrightarrow> List.map_filter ss ids = List.map_filter ss' ids"
  by (induction ids) (auto simp: List.map_filter_simps split: option.splits)

lemma map_filter_new:
  "\<forall>x \<in> set new. ss (sst_id x) = Some x \<Longrightarrow> List.map_filter ss (map sst_id new) = new"
  by (induction new) (auto simp: List.map_filter_simps)

lemma find_id_Some:
  "distinct (map sst_id new) \<Longrightarrow> x \<in> set new \<Longrightarrow> find (\<lambda>y. sst_id y = sst_id x) new = Some x"
proof (induction new)
  case Nil
  then show ?case by simp
next
  case (Cons a new)
  then show ?case by (auto simp: image_iff)
qed

lemma find_id_None: "i \<notin> sst_id ` set new \<Longrightarrow> find (\<lambda>y. sst_id y = i) new = None"
  by (auto simp: find_None_iff image_iff)

lemma compact_level_effect:
  assumes inv: "levels_inv s" and good: "good_config c"
  shows "\<exists>new s'. compact_level c s src = Ok s'
     \<and> memtable s' = memtable s
     \<and> cur_max_level s' = max (cur_max_level s) (src + 1)
     \<and> cur_max_sst_id s' = cur_max_sst_id s + length new
     \<and> (\<forall>l. lvl (level_sst_ids s') l =
            (if l = src + 1 then map sst_id new else if l = src then []
             else lvl (level_sst_ids s) l))
     \<and> (\<forall>i. ssts s' i =
            (case find (\<lambda>x. sst_id x = i) new of
               Some x \<Rightarrow> Some x
             | None \<Rightarrow> if i \<in> set (lvl (level_sst_ids s) src) \<union> set (lvl (level_sst_ids s) (src + 1))
                       then None else ssts s i))
     \<and> map sst_id new = [cur_max_sst_id s ..< cur_max_sst_id s + length new]
     \<and> concat (map sst_entries new) = compact_cursor src (level_ssts s src) (level_ssts s (src + 1))
     \<and> (\<forall>sst \<in> set new. sst_entries sst \<noteq> [])"
proof -
  let ?X = "lvl (level_sst_ids s) src" and ?Y = "lvl (level_sst_ids s) (src + 1)"
  let ?M = "compact_cursor src (level_ssts s src) (level_ssts s (src + 1))"
  have cb: "compact_build c s src ?X ?Y = gen_sst_from_iter c s ?M (compact_target c src) (src + 1)"
    by (simp add: compact_build_target levels_inv_registered[OF inv])
  from gen_sst_from_iter_good[OF good, of s ?M "compact_target c src" "src + 1"]
  obtain new s1 where gen: "gen_sst_from_iter c s ?M (compact_target c src) (src + 1) = Ok (new, s1)"
    and bo: "build_only s s1" and cc: "concat (map sst_entries new) = ?M"
    and ne: "\<forall>sst \<in> set new. sst_entries sst \<noteq> []"
    and ids: "map sst_id new = [cur_max_sst_id s ..< cur_max_sst_id s + length new]"
    and cm: "cur_max_sst_id s1 = cur_max_sst_id s + length new"
    by blast
  from bo have s1: "memtable s1 = memtable s" "ssts s1 = ssts s"
    "level_sst_ids s1 = level_sst_ids s" "cur_max_level s1 = cur_max_level s"
    by (simp_all add: build_only_def)
  from inv have dX: "distinct ?X" and dY: "distinct ?Y" and disj: "set ?X \<inter> set ?Y = {}"
    and regX: "\<forall>i \<in> set ?X. ssts s i \<noteq> None" and regY: "\<forall>i \<in> set ?Y. ssts s i \<noteq> None"
    unfolding levels_inv_def by (blast, blast, simp, blast, blast)
  have "\<forall>i \<in> set ?X. ssts s1 i \<noteq> None" using regX s1 by simp
  from del_ssts_ok[OF dX this] obtain sa where sa0: "del_ssts s1 ?X = Ok sa"
    "ssts sa = (\<lambda>i. if i \<in> set ?X then None else ssts s1 i)"
    "memtable sa = memtable s1" "level_sst_ids sa = level_sst_ids s1"
    "cur_max_sst_id sa = cur_max_sst_id s1" "cur_max_level sa = cur_max_level s1"
    by blast
  then have sa: "del_ssts s1 ?X = Ok sa"
    "ssts sa = (\<lambda>i. if i \<in> set ?X then None else ssts s i)"
    "memtable sa = memtable s" "level_sst_ids sa = level_sst_ids s"
    "cur_max_sst_id sa = cur_max_sst_id s1" "cur_max_level sa = cur_max_level s"
    unfolding s1 by simp_all
  have "\<forall>i \<in> set ?Y. ssts sa i \<noteq> None" using regY disj sa(2) by auto
  from del_ssts_ok[OF dY this] obtain sb where sb: "del_ssts sa ?Y = Ok sb"
    "ssts sb = (\<lambda>i. if i \<in> set ?Y then None else ssts sa i)"
    "memtable sb = memtable sa" "level_sst_ids sb = level_sst_ids sa"
    "cur_max_sst_id sb = cur_max_sst_id sa" "cur_max_level sb = cur_max_level sa"
    by blast
  define s2 where "s2 = sb\<lparr>level_sst_ids := lvl_set (src + 1) [] (lvl_set src [] (level_sst_ids sb))\<rparr>"
  have rm: "compact_remove_old s1 src ?X ?Y = Ok s2"
    by (simp only: compact_remove_old_def sa(1) sb(1) outcome.case s2_def)
  define s3 where "s3 = compact_register s2 src new"
  have res: "compact_level c s src = Ok s3"
    by (simp only: compact_level_def Let_def cb gen prod.case outcome.case rm s3_def)
  define sr where "sr = add_ssts (src + 1) (s2\<lparr>cur_max_level := max (cur_max_level s2) (src + 1)\<rparr>) new"
  have s3': "s3 = sr\<lparr>level_sst_ids := lvl_set (src + 1) (sort (lvl (level_sst_ids sr) (src + 1)))
                (level_sst_ids sr)\<rparr>"
    by (simp add: s3_def compact_register_def Let_def sr_def)
  have dnew: "distinct (map sst_id new)" unfolding ids by simp
  have srl: "lvl (level_sst_ids sr) l =
      (if l = src + 1 then map sst_id new else if l = src then [] else lvl (level_sst_ids s) l)" for l
    by (simp add: sr_def add_ssts_lvl s2_def lvl_lvl_set sb sa)
  have "sort (map sst_id new) = map sst_id new"
    unfolding ids by (rule sorted_sort_id) simp
  then have l3: "lvl (level_sst_ids s3) l =
      (if l = src + 1 then map sst_id new else if l = src then [] else lvl (level_sst_ids s) l)" for l
    by (simp add: s3' lvl_lvl_set srl)
  have ss3: "ssts s3 i = (case find (\<lambda>x. sst_id x = i) new of
               Some x \<Rightarrow> Some x
             | None \<Rightarrow> if i \<in> set ?X \<union> set ?Y then None else ssts s i)" for i
    by (simp add: s3' sr_def add_ssts_ssts[OF dnew] s2_def sb sa split: option.splits)
  have f3: "memtable s3 = memtable s" "cur_max_level s3 = max (cur_max_level s) (src + 1)"
    "cur_max_sst_id s3 = cur_max_sst_id s + length new"
    by (simp_all add: s3' sr_def add_ssts_fields s2_def sb sa cm)
  from res f3 l3 ss3 ids cc ne show ?thesis by blast
qed

lemma newest_id_in: "newest xs k = Some (j, w) \<Longrightarrow> j \<in> sst_id ` set xs"
  by (induction xs arbitrary: j w) (auto split: option.splits if_splits)

lemma newest_first_hit:
  "sorted_wrt (>) (map sst_id xs) \<Longrightarrow>
     map_option snd (newest xs k) = first_hit (map (\<lambda>sst. sst_get sst k) xs)"
proof (induction xs)
  case Nil
  then show ?case by simp
next
  case (Cons x xs)
  show ?case
  proof (cases "sst_get x k")
    case None
    with Cons show ?thesis by simp
  next
    case (Some v)
    show ?thesis
    proof (cases "newest xs k")
      case None
      with Some show ?thesis by simp
    next
      case (Some jw)
      obtain j w where jw: "jw = (j, w)" by (cases jw)
      from newest_id_in[of xs k j w] Some jw have "j \<in> sst_id ` set xs" by simp
      with Cons.prems have "j < sst_id x" by auto
      with Some jw \<open>sst_get x k = Some v\<close> show ?thesis by simp
    qed
  qed
qed

lemma ascending_concat_member:
  "ascending (concat xss) \<Longrightarrow> xs \<in> set xss \<Longrightarrow> ascending xs"
  by (induction xss) (auto simp: ascending_append)

lemma levels_inv_run_ok: "levels_inv s \<Longrightarrow> 1 \<le> l \<Longrightarrow> run_ok (level_ssts s l)"
  by (simp add: levels_inv_def)

lemma levels_inv_ascending:
  assumes "levels_inv s" "sst \<in> set (level_ssts s l)"
  shows "ascending (sst_entries sst)"
proof -
  from assms(2) obtain sid where sid: "sid \<in> set (lvl (level_sst_ids s) l)" "ssts s sid = Some sst"
    by (auto simp: level_ssts_def List.map_filter_def)
  with assms(1) show ?thesis unfolding levels_inv_def by fastforce
qed

lemma concat_lookup:
  assumes "levels_inv s" "1 \<le> l"
  shows "ascending (ConcactIterator (level_ssts s l))
       \<and> map_of (ConcactIterator (level_ssts s l)) k = level_lookup s k l"
proof -
  from levels_inv_run_ok[OF assms] have r: "run_ok (level_ssts s l)" .
  then have "ascending (ConcactIterator (level_ssts s l))"
    by (simp add: run_ok_def ConcactIterator_def)
  moreover have "map_of (ConcactIterator (level_ssts s l)) k = level_lookup s k l"
    using run_ok_probe[OF r, of k] assms(2) by (simp add: ConcactIterator_def level_lookup_def)
  ultimately show ?thesis by simp
qed

lemma l0_heap_lookup:
  assumes "levels_inv s"
  shows "ascending (heap_drain (merge_sst_iterator (map sst_begin (level_ssts s 0))))
       \<and> map_of (heap_drain (merge_sst_iterator (map sst_begin (level_ssts s 0)))) k
           = level_lookup s k 0"
proof -
  let ?xs = "level_ssts s 0"
  have ids: "map sst_id ?xs = lvl (level_sst_ids s) 0" by (rule levels_inv_ids[OF assms])
  from assms have desc: "sorted_wrt (>) (map sst_id ?xs)" and d: "distinct (map sst_id ?xs)"
    unfolding ids by (simp_all add: levels_inv_def)
  have a: "\<forall>sst \<in> set ?xs. ascending (sst_entries sst)"
    using levels_inv_ascending[OF assms] by blast
  from sst_heap_newest[OF begin_items d a, of k] newest_first_hit[OF desc, of k]
  show ?thesis by (simp add: merge_sst_iterator_def level_lookup_def)
qed

lemma compact_cursor_lookup:
  assumes "levels_inv s"
  shows "ascending (compact_cursor src (level_ssts s src) (level_ssts s (src + 1)))
       \<and> map_of (compact_cursor src (level_ssts s src) (level_ssts s (src + 1))) k =
           (case level_lookup s k src of
              Some v \<Rightarrow> Some v
            | None \<Rightarrow> level_lookup s k (src + 1))"
proof -
  from concat_lookup[OF assms, of "src + 1" k]
  have b: "ascending (ConcactIterator (level_ssts s (src + 1)))"
    "map_of (ConcactIterator (level_ssts s (src + 1))) k = level_lookup s k (src + 1)"
    by simp_all
  show ?thesis
  proof (cases "src = 0")
    case True
    from l0_heap_lookup[OF assms, of k]
    have a: "ascending (heap_drain (merge_sst_iterator (map sst_begin (level_ssts s 0))))"
      "map_of (heap_drain (merge_sst_iterator (map sst_begin (level_ssts s 0)))) k
         = level_lookup s k 0"
      by simp_all
    from True b have b0: "ascending (ConcactIterator (level_ssts s (Suc 0)))"
      "map_of (ConcactIterator (level_ssts s (Suc 0))) k = level_lookup s k (Suc 0)"
      by simp_all
    show ?thesis
      using two_merge_ascending[OF a(1) b0(1)] two_merge_map_of[OF a(1) b0(1), of k] a(2) b0(2) True
      by (simp add: compact_cursor_def split: option.splits)
  next
    case False
    from concat_lookup[OF assms, of src k] False
    have a: "ascending (ConcactIterator (level_ssts s src))"
      "map_of (ConcactIterator (level_ssts s src)) k = level_lookup s k src"
      by simp_all
    show ?thesis
      using two_merge_ascending[OF a(1) b(1)] two_merge_map_of[OF a(1) b(1), of k] a(2) b(2) False
      by (simp add: compact_cursor_def split: option.splits)
  qed
qed

lemma first_hit_extend:
  "\<forall>l. n \<le> l \<longrightarrow> g l = None \<Longrightarrow> n \<le> m \<Longrightarrow>
     first_hit (map g [0..<m]) = first_hit (map g [0..<n])"
proof (induction m)
  case 0
  then show ?case by simp
next
  case (Suc m)
  show ?case
  proof (cases "n = Suc m")
    case True
    then show ?thesis by simp
  next
    case False
    with Suc.prems have "n \<le> m" by simp
    with Suc show ?thesis by (auto simp: first_hit_append split: option.splits)
  qed
qed

lemma first_hit_cong:
  "\<forall>l \<in> set ls. g' l = g l \<Longrightarrow> first_hit (map g' ls) = first_hit (map g ls)"
  by (induction ls) (auto split: option.splits)

lemma first_hit_merge_levels:
  assumes src: "g' src = None"
    and nxt: "g' (Suc src) = (case g src of Some v \<Rightarrow> Some v | None \<Rightarrow> g (Suc src))"
    and other: "\<forall>l. l \<noteq> src \<and> l \<noteq> Suc src \<longrightarrow> g' l = g l"
    and m: "Suc src < m"
  shows "first_hit (map g' [0..<m]) = first_hit (map g [0..<m])"
proof -
  have split: "[0..<m] = [0..<src] @ [src, Suc src] @ [Suc (Suc src)..<m]"
  proof -
    have "[0..<m] = [0..<src] @ [src..<m]"
      using m upt_add_eq_append[of 0 src "m - src"] by simp
    also have "[src..<m] = src # [Suc src..<m]" using m by (simp add: upt_conv_Cons)
    also have "[Suc src..<m] = Suc src # [Suc (Suc src)..<m]" using m by (simp add: upt_conv_Cons)
    finally show ?thesis by simp
  qed
  have a: "first_hit (map g' [0..<src]) = first_hit (map g [0..<src])"
    by (rule first_hit_cong) (use other in auto)
  have c: "first_hit (map g' [Suc (Suc src)..<m]) = first_hit (map g [Suc (Suc src)..<m])"
    by (rule first_hit_cong) (use other in auto)
  show ?thesis
    unfolding split map_append first_hit_append a c
    by (simp add: src nxt split: option.splits)
qed

lemma level_lookup_empty: "lvl (level_sst_ids s) l = [] \<Longrightarrow> level_lookup s k l = None"
  by (auto simp: level_lookup_def level_ssts_def List.map_filter_simps probe_list_def)

lemma view_bound:
  assumes "\<forall>l. cur_max_level s < l \<longrightarrow> lvl (level_sst_ids s) l = []" "cur_max_level s \<le> n"
  shows "view s k = first_hit (mt_get (memtable s) k # map (level_lookup s k) [0..<Suc n])"
proof -
  have "\<forall>l. Suc (cur_max_level s) \<le> l \<longrightarrow> level_lookup s k l = None"
    using assms(1) by (auto intro: level_lookup_empty)
  from first_hit_extend[OF this, of "Suc n"] assms(2)
  show ?thesis by (simp add: view_def del: upt_Suc split: option.splits)
qed

lemma compact_level_preserves:
  assumes inv: "levels_inv s" and good: "good_config c"
  shows "\<exists>s'. compact_level c s src = Ok s' \<and> levels_inv s' \<and> memtable s' = memtable s
           \<and> (\<forall>k. view s' k = view s k)"
proof -
  let ?X = "lvl (level_sst_ids s) src" and ?Y = "lvl (level_sst_ids s) (src + 1)"
  let ?n = "cur_max_sst_id s"
  from compact_level_effect[OF inv good, of src] obtain new s' where
    res: "compact_level c s src = Ok s'"
    and mem: "memtable s' = memtable s"
    and cml: "cur_max_level s' = max (cur_max_level s) (src + 1)"
    and cms: "cur_max_sst_id s' = ?n + length new"
    and lv: "\<And>l. lvl (level_sst_ids s') l =
            (if l = src + 1 then map sst_id new else if l = src then []
             else lvl (level_sst_ids s) l)"
    and ss: "\<And>i. ssts s' i =
            (case find (\<lambda>x. sst_id x = i) new of
               Some x \<Rightarrow> Some x
             | None \<Rightarrow> if i \<in> set ?X \<union> set ?Y then None else ssts s i)"
    and ids: "map sst_id new = [?n ..< ?n + length new]"
    and cc: "concat (map sst_entries new) = compact_cursor src (level_ssts s src) (level_ssts s (src + 1))"
    and ne: "\<forall>sst \<in> set new. sst_entries sst \<noteq> []"
    by blast
  have dnew: "distinct (map sst_id new)" unfolding ids by simp
  have new_reg: "ssts s' (sst_id x) = Some x" if "x \<in> set new" for x
    using find_id_Some[OF dnew that] by (simp add: ss)
  have new_ge: "?n \<le> sst_id x \<and> sst_id x < ?n + length new" if "x \<in> set new" for x
  proof -
    from that have "sst_id x \<in> set (map sst_id new)" by simp
    then show ?thesis unfolding ids by simp
  qed
  have asc_cursor: "ascending (concat (map sst_entries new))"
    unfolding cc using compact_cursor_lookup[OF inv] by simp
  have run_new: "run_ok new" using ne asc_cursor by (simp add: run_ok_def)
  have old_lt: "sid < ?n" if "sid \<in> set (lvl (level_sst_ids s) l)" for sid l
    using inv that unfolding levels_inv_def by blast
  have old_same: "ssts s' sid = ssts s sid"
    if "sid \<in> set (lvl (level_sst_ids s) l)" "l \<noteq> src" "l \<noteq> src + 1" for sid l
  proof -
    have "sid \<notin> sst_id ` set new" using old_lt[OF that(1)] new_ge by fastforce
    then have f: "find (\<lambda>x. sst_id x = sid) new = None" by (rule find_id_None)
    from inv that have "sid \<notin> set ?X" "sid \<notin> set ?Y"
      unfolding levels_inv_def by blast+
    with f show ?thesis by (simp add: ss)
  qed
  have ssts_new: "level_ssts s' (src + 1) = new"
    unfolding level_ssts_def using lv[of "src + 1"] new_reg by (simp add: map_filter_new)
  have ssts_src: "level_ssts s' src = []"
    unfolding level_ssts_def using lv[of src] by (simp add: List.map_filter_simps)
  have ssts_other: "level_ssts s' l = level_ssts s l" if "l \<noteq> src" "l \<noteq> src + 1" for l
    unfolding level_ssts_def using lv[of l] that old_same[of _ l]
    by (auto intro: map_filter_cong_set)
  have i1: "sid < cur_max_sst_id s'
      \<and> (\<exists>sst. ssts s' sid = Some sst \<and> sst_id sst = sid \<and> ascending (sst_entries sst))"
    if sid: "sid \<in> set (lvl (level_sst_ids s') l)" for l sid
  proof -
    consider "l = src + 1" | "l = src" | "l \<noteq> src" "l \<noteq> src + 1" by blast
    then show ?thesis
    proof cases
      case 1
      with sid lv[of l] obtain x where x: "x \<in> set new" "sst_id x = sid" by auto
      have "ascending (sst_entries x)"
        using ascending_concat_member[OF asc_cursor, of "sst_entries x"] x by simp
      with x new_reg[OF x(1)] new_ge[OF x(1)] show ?thesis by (auto simp: cms)
    next
      case 2
      with sid lv[of l] show ?thesis by simp
    next
      case 3
      with sid lv[of l] have old: "sid \<in> set (lvl (level_sst_ids s) l)" by simp
      with inv have "\<exists>sst. ssts s sid = Some sst \<and> sst_id sst = sid \<and> ascending (sst_entries sst)"
        unfolding levels_inv_def by blast
      with old_same[OF old 3] old_lt[OF old] show ?thesis by (simp add: cms)
    qed
  qed
  have i2: "distinct (lvl (level_sst_ids s') l)" for l
    using inv dnew by (simp add: lv levels_inv_def)
  have i3: "set (lvl (level_sst_ids s') l) \<inter> set (lvl (level_sst_ids s') l') = {}"
    if "l \<noteq> l'" for l l'
  proof -
    have fresh: "set (map sst_id new) \<inter> set (lvl (level_sst_ids s) m) = {}" for m
      unfolding ids using old_lt[of _ m] by fastforce
    from inv that have "set (lvl (level_sst_ids s) l) \<inter> set (lvl (level_sst_ids s) l') = {}"
      unfolding levels_inv_def by blast
    with fresh[of l] fresh[of l'] that show ?thesis by (auto simp: lv)
  qed
  have i4: "sorted_wrt (>) (lvl (level_sst_ids s') 0)"
    using inv by (simp add: lv levels_inv_def)
  have i5: "run_ok (level_ssts s' l)" if "1 \<le> l" for l
  proof -
    consider "l = src + 1" | "l = src" | "l \<noteq> src" "l \<noteq> src + 1" by blast
    then show ?thesis
    proof cases
      case 1 with run_new ssts_new show ?thesis by simp
    next
      case 2 with ssts_src show ?thesis by (simp add: run_ok_def ascending_def)
    next
      case 3
      with ssts_other[of l] levels_inv_run_ok[OF inv that] show ?thesis by simp
    qed
  qed
  have i6: "lvl (level_sst_ids s') l = []" if "cur_max_level s' < l" for l
    using that inv by (simp add: lv cml levels_inv_def)
  have inv': "levels_inv s'"
    unfolding levels_inv_def using i1 i2 i3 i4 i5 i6 by blast
  have vw: "view s' k = view s k" for k
  proof -
    let ?g = "level_lookup s k" and ?g' = "level_lookup s' k"
    let ?N = "max (cur_max_level s) (src + 1)"
    have g_src: "?g' src = None"
      by (rule level_lookup_empty) (simp add: lv)
    have "?g' (Suc src) = probe_list new k"
      using ssts_new by (simp add: level_lookup_def)
    also have "\<dots> = map_of (concat (map sst_entries new)) k"
      by (rule run_ok_probe[OF run_new])
    also have "\<dots> = (case ?g src of Some v \<Rightarrow> Some v | None \<Rightarrow> ?g (Suc src))"
      unfolding cc using compact_cursor_lookup[OF inv, of src k] by (simp split: option.splits)
    finally have g_nxt: "?g' (Suc src) = (case ?g src of Some v \<Rightarrow> Some v | None \<Rightarrow> ?g (Suc src))" .
    have g_other: "\<forall>l. l \<noteq> src \<and> l \<noteq> Suc src \<longrightarrow> ?g' l = ?g l"
    proof (intro allI impI)
      fix l assume l: "l \<noteq> src \<and> l \<noteq> Suc src"
      then have "level_ssts s' l = level_ssts s l" "level_ssts s' 0 = level_ssts s 0 \<or> l \<noteq> 0"
        using ssts_other[of l] by auto
      then show "?g' l = ?g l" by (auto simp: level_lookup_def)
    qed
    have a: "view s' k = first_hit (mt_get (memtable s) k # map ?g' [0..<Suc ?N])"
      by (simp add: view_def cml mem del: upt_Suc)
    have b: "first_hit (map ?g' [0..<Suc ?N]) = first_hit (map ?g [0..<Suc ?N])"
      by (rule first_hit_merge_levels[OF g_src g_nxt g_other]) simp
    have c: "view s k = first_hit (mt_get (memtable s) k # map ?g [0..<Suc ?N])"
      using view_bound[of s ?N k] inv by (simp add: levels_inv_def del: upt_Suc)
    from a b c show ?thesis by (simp del: upt_Suc split: option.splits)
  qed
  from res inv' mem vw show ?thesis by blast
qed

subsection \<open>Writes followed by a read\<close>

lemma sl_put_keys: "x \<in> set (sl_put t k v) \<Longrightarrow> fst x = k \<or> fst x \<in> fst ` set t"
proof (induction t)
  case Nil
  then show ?case by simp
next
  case (Cons a t)
  then show ?case by (cases a) (force split: if_splits)
qed

lemma sl_put_ascending: "ascending t \<Longrightarrow> ascending (sl_put t k v)"
proof (induction t)
  case Nil
  then show ?case by (simp add: ascending_def)
next
  case (Cons a t)
  obtain k' v' where a: "a = (k', v')" by (cases a)
  from Cons.prems have asc: "ascending t" and lt: "\<forall>x \<in> set t. k' < fst x"
    by (auto simp: ascending_Cons a)
  consider "k < k'" | "k = k'" | "k' < k" using linorder_cases[of k k'] by blast
  then show ?case
  proof cases
    case 1
    with Cons.prems lt a show ?thesis by (auto simp: ascending_Cons)
  next
    case 2
    with Cons.prems a show ?thesis by (auto simp: ascending_Cons)
  next
    case 3
    have "\<forall>x \<in> set (sl_put t k v). k' < fst x"
    proof
      fix x assume "x \<in> set (sl_put t k v)"
      then have "fst x \<in> insert k (fst ` set t)" using sl_put_keys[of x t k v] by blast
      with 3 lt show "k' < fst x" by auto
    qed
    with 3 Cons.IH[OF asc] a show ?thesis by (auto simp: ascending_Cons)
  qed
qed

lemma sl_put_get:
  "ascending t \<Longrightarrow> sl_get (sl_put t k v) k' = (if k' = k then Some v else sl_get t k')"
proof (induction t)
  case Nil
  then show ?case by (simp add: sl_get_def)
next
  case (Cons a t)
  obtain ka va where a: "a = (ka, va)" by (cases a)
  from Cons.prems have asc: "ascending t" by (simp add: ascending_Cons)
  have none: "k < ka \<Longrightarrow> map_of ((ka, va) # t) k = None"
    using ascending_map_of_None[OF Cons.prems[unfolded a], of k] by simp
  from Cons.IH[OF asc] a none show ?case
    by (auto simp: sl_get_def)
qed

lemma mt_put_get:
  assumes "mem_ok c m"
  shows "mt_get (mt_put c m k v) k' = (if k' = k then Some v else mt_get m k')"
proof -
  from assms have "ascending (current_table m)" by (simp add: mem_ok_def)
  from sl_put_get[OF this] show ?thesis
    by (auto simp: mt_put_def Let_def mt_get_def freeze_current_def sl_get_def split: option.splits)
qed

lemma ascending_Nil: "ascending []"
  by (simp add: ascending_def)

lemma mt_put_ok: "mem_ok c m \<Longrightarrow> mem_ok c (mt_put c m k v)"
  by (auto simp: mem_ok_def mt_put_def Let_def freeze_current_def sl_put_ascending not_le
      ascending_Nil)

lemma mem_ok_flushable:
  assumes "mem_ok c m" "LSM_PER_MEM_SIZE_LIMIT c \<le> LSM_TOL_MEM_SIZE_LIMIT c"
    "LSM_TOL_MEM_SIZE_LIMIT c \<le> get_total_size m"
  shows "frozen_tables m \<noteq> [] \<or> get_total_size m = 0"
proof (cases "frozen_tables m = []")
  case False
  then show ?thesis by simp
next
  case True
  from assms(1) consider "current_table m = []" | "sl_size (current_table m) < LSM_PER_MEM_SIZE_LIMIT c"
    by (auto simp: mem_ok_def)
  then show ?thesis
  proof cases
    case 1
    with True show ?thesis by (simp add: get_total_size_def sl_size_def)
  next
    case 2
    with True assms(2,3) show ?thesis by (simp add: get_total_size_def)
  qed
qed

lemma full_compact_preserves:
  assumes "good_config c"
  shows "levels_inv s \<Longrightarrow>
     \<exists>s'. full_compact c s src = Ok s' \<and> levels_inv s' \<and> memtable s' = memtable s
           \<and> (\<forall>k. view s' k = view s k)"
  using assms
proof (induction c s src rule: full_compact.induct)
  case (1 c s src)
  from "1.prems" have r: "LSM_SST_LEVEL_RATIO c \<noteq> 0" by (simp add: good_config_def)
  show ?case
  proof (cases "LSM_SST_LEVEL_RATIO c \<le> length (lvl (level_sst_ids s) (src + 1))")
    case True
    from "1.IH"[OF r True "1.prems"] obtain s1 where s1: "full_compact c s (src + 1) = Ok s1"
      "levels_inv s1" "memtable s1 = memtable s" "\<forall>k. view s1 k = view s k"
      by blast
    from compact_level_preserves[OF s1(2) "1.prems"(2), of src] obtain s' where
      "compact_level c s1 src = Ok s'" "levels_inv s'" "memtable s' = memtable s1"
      "\<forall>k. view s' k = view s1 k"
      by blast
    with s1 r True show ?thesis
      by (subst full_compact.simps) simp
  next
    case False
    from compact_level_preserves[OF "1.prems", of src] r False show ?thesis
      by (subst full_compact.simps) simp
  qed
qed

lemma view_unfold:
  "view s k =
     (case mt_get (memtable s) k of
        Some v \<Rightarrow> Some v
      | None \<Rightarrow>
          (case level_lookup s k 0 of
             Some v \<Rightarrow> Some v
           | None \<Rightarrow> first_hit (map (level_lookup s k) [1..<Suc (cur_max_level s)])))"
proof -
  have "[0..<Suc (cur_max_level s)] = 0 # [1..<Suc (cur_max_level s)]"
    by (simp add: upt_conv_Cons del: upt_Suc)
  then show ?thesis by (simp add: view_def del: upt_Suc split: option.splits)
qed

lemma flush_preserves:
  assumes good: "good_config c" and inv: "levels_inv s" and mem: "mem_ok c (memtable s)"
    and fl: "frozen_tables (memtable s) \<noteq> [] \<or> get_total_size (memtable s) = 0"
  shows "\<exists>s'. flush c s = Ok s' \<and> levels_inv s' \<and> mem_ok c (memtable s')
           \<and> (\<forall>k. view s' k = view s k)"
proof (cases "get_total_size (memtable s) = 0")
  case True
  with inv mem show ?thesis by (simp add: flush_def)
next
  case False
  with fl have fr: "frozen_tables (memtable s) \<noteq> []" by simp
  let ?pre = "if map_of (level_sst_ids s) 0 \<noteq> None
                  \<and> LSM_SST_LEVEL_RATIO c \<le> length (lvl (level_sst_ids s) 0)
               then full_compact c s 0 else Ok s"
  have "\<exists>s1. ?pre = Ok s1 \<and> levels_inv s1 \<and> memtable s1 = memtable s
           \<and> (\<forall>k. view s1 k = view s k)"
    using full_compact_preserves[OF good inv, of 0] inv by auto
  then obtain s1 where pre: "?pre = Ok s1" and inv1: "levels_inv s1"
    and mem1: "memtable s1 = memtable s" and view1: "\<forall>k. view s1 k = view s k"
    by blast
  define n where "n = cur_max_sst_id s1"
  define tbl where "tbl = last (frozen_tables (memtable s))"
  define new_sst where "new_sst = \<lparr>sst_id = n, sst_path = get_sst_path n 0, sst_entries = tbl\<rparr>"
  define m' where "m' = (memtable s)\<lparr>frozen_tables := butlast (frozen_tables (memtable s))\<rparr>"
  define s' where "s' = s1\<lparr>cur_max_sst_id := n + 1,
      disk := (disk s1)(get_sst_path n 0 \<mapsto> tbl), memtable := m',
      ssts := (ssts s1)(n \<mapsto> new_sst),
      level_sst_ids := lvl_set 0 (n # lvl (level_sst_ids s1) 0) (level_sst_ids s1)\<rparr>"
  from good have io: "io_ok c n" by (simp add: good_config_def)
  obtain t ts where tts: "frozen_tables (memtable s) = t # ts" using fr by (cases "frozen_tables (memtable s)") auto
  have fl1: "flush_last c (s1\<lparr>cur_max_sst_id := n + 1\<rparr>) (get_sst_path n 0) n
      = Ok (new_sst, s1\<lparr>cur_max_sst_id := n + 1,
               disk := (disk s1)(get_sst_path n 0 \<mapsto> tbl), memtable := m'\<rparr>)"
    using io tts by (simp add: flush_last_def build_def mem1 new_sst_def tbl_def m'_def)
  have res: "flush c s = Ok s'"
    unfolding flush_def using False
    by (simp only: if_False pre outcome.case Let_def n_def[symmetric] fl1 prod.case s'_def)
      simp
  have lv: "lvl (level_sst_ids s') l =
      (if l = 0 then n # lvl (level_sst_ids s1) 0 else lvl (level_sst_ids s1) l)" for l
    by (simp add: s'_def lvl_lvl_set)
  have ss: "ssts s' = (ssts s1)(n \<mapsto> new_sst)" by (simp add: s'_def)
  have old_lt: "sid < n" if "sid \<in> set (lvl (level_sst_ids s1) l)" for sid l
    using inv1 that unfolding levels_inv_def n_def by blast
  have same: "ssts s' sid = ssts s1 sid" if "sid \<in> set (lvl (level_sst_ids s1) l)" for sid l
    using old_lt[OF that] by (simp add: ss)
  have tbl_asc: "ascending tbl"
    using mem fr unfolding mem_ok_def tbl_def by (simp add: last_in_set)
  have ssts_l: "level_ssts s' l = level_ssts s1 l" if "l \<noteq> 0" for l
    unfolding level_ssts_def using that lv[of l] same[of _ l]
    by (auto intro: map_filter_cong_set)
  have "List.map_filter (ssts s') (lvl (level_sst_ids s1) 0)
      = List.map_filter (ssts s1) (lvl (level_sst_ids s1) 0)"
    by (rule map_filter_cong_set) (use same[of _ 0] in blast)
  then have ssts_0: "level_ssts s' 0 = new_sst # level_ssts s1 0"
    unfolding level_ssts_def by (simp add: lv List.map_filter_simps ss)
  have i1: "sid < cur_max_sst_id s'
      \<and> (\<exists>sst. ssts s' sid = Some sst \<and> sst_id sst = sid \<and> ascending (sst_entries sst))"
    if sid: "sid \<in> set (lvl (level_sst_ids s') l)" for l sid
  proof (cases "sid = n")
    case True
    then show ?thesis using tbl_asc by (simp add: s'_def new_sst_def)
  next
    case False
    with sid have old: "sid \<in> set (lvl (level_sst_ids s1) l)" by (auto simp: lv split: if_splits)
    with inv1 have "\<exists>sst. ssts s1 sid = Some sst \<and> sst_id sst = sid \<and> ascending (sst_entries sst)"
      unfolding levels_inv_def by blast
    with same[OF old] old_lt[OF old] show ?thesis by (simp add: s'_def)
  qed
  have i2: "distinct (lvl (level_sst_ids s') l)" for l
    using inv1 old_lt[of n 0] by (auto simp: lv levels_inv_def)
  have i3: "set (lvl (level_sst_ids s') l) \<inter> set (lvl (level_sst_ids s') l') = {}"
    if "l \<noteq> l'" for l l'
  proof -
    from inv1 that have "set (lvl (level_sst_ids s1) l) \<inter> set (lvl (level_sst_ids s1) l') = {}"
      unfolding levels_inv_def by blast
    with old_lt[of n l] old_lt[of n l'] that show ?thesis by (auto simp: lv)
  qed
  have i4: "sorted_wrt (>) (lvl (level_sst_ids s') 0)"
    using inv1 old_lt[of _ 0] by (auto simp: lv levels_inv_def)
  have i5: "run_ok (level_ssts s' l)" if "1 \<le> l" for l
    using ssts_l[of l] that levels_inv_run_ok[OF inv1 that] by simp
  have cml: "cur_max_level s' = cur_max_level s1" by (simp add: s'_def)
  have i6: "lvl (level_sst_ids s') l = []" if "cur_max_level s' < l" for l
    using that inv1 unfolding lv cml by (auto simp: levels_inv_def)
  have inv': "levels_inv s'"
    unfolding levels_inv_def using i1 i2 i3 i4 i5 i6 by blast
  have mem': "mem_ok c (memtable s')"
    using mem by (auto simp: s'_def m'_def mem_ok_def dest: in_set_butlastD)
  have vw: "view s' k = view s k" for k
  proof -
    have fz: "frozen_tables (memtable s) = butlast (frozen_tables (memtable s)) @ [tbl]"
      using fr by (simp add: tbl_def)
    have a: "mt_get (memtable s) k =
        (case mt_get m' k of Some v \<Rightarrow> Some v | None \<Rightarrow> sl_get tbl k)"
      unfolding mt_get_first_hit
      by (subst fz) (simp add: m'_def first_hit_append split: option.splits)
    have b: "level_lookup s' k 0 =
        (case sl_get tbl k of Some v \<Rightarrow> Some v | None \<Rightarrow> level_lookup s1 k 0)"
      by (simp add: level_lookup_def ssts_0 sst_get_def new_sst_def sl_get_def split: option.splits)
    have c: "map (level_lookup s' k) [1..<Suc (cur_max_level s')]
        = map (level_lookup s1 k) [1..<Suc (cur_max_level s1)]"
      using ssts_l by (auto simp: level_lookup_def s'_def simp del: upt_Suc)
    have "view s' k = view s1 k"
      unfolding view_unfold[of s'] view_unfold[of s1] c b
      by (simp add: s'_def mem1 a split: option.splits)
    with view1 show ?thesis by simp
  qed
  from res inv' mem' vw show ?thesis by blast
qed

lemma levels_inv_levels_ok: "levels_inv s \<Longrightarrow> levels_ok s"
  unfolding levels_ok_def registered_def
proof (intro conjI ballI)
  fix l sid assume "levels_inv s" "sid \<in> set (lvl (level_sst_ids s) l)"
  then show "ssts s sid \<noteq> None" unfolding levels_inv_def by fastforce
next
  fix l assume "levels_inv s" "l \<in> {1..cur_max_level s}"
  then show "ranges_sorted (level_ssts s l)"
    by (intro run_ok_ranges_sorted levels_inv_run_ok) simp_all
qed

lemma layers_view: "first_hit (layers s k) = view s k"
proof -
  have a: "map (level_lookup s k) [1..<Suc (cur_max_level s)]
      = map (\<lambda>l. probe_list (level_ssts s l) k) [1..<Suc (cur_max_level s)]"
    by (rule map_cong) (auto simp: level_lookup_def)
  have b: "level_lookup s k 0 = first_hit (map (\<lambda>sst. sst_get sst k) (level_ssts s 0))"
    by (simp add: level_lookup_def)
  show ?thesis
    unfolding view_unfold layers_def a b
    by (simp add: first_hit_append del: upt_Suc split: option.splits)
qed

lemma engine_get_view:
  "levels_inv s \<Longrightarrow> engine_get s k = Inr (case view s k of None \<Rightarrow> None | Some v \<Rightarrow> hit v)"
  using engine_get_layers[OF levels_inv_levels_ok, of s k]
  by (simp add: get_spec_def layers_view)

lemma levels_inv_memtable: "levels_inv (s\<lparr>memtable := m\<rparr>) = levels_inv s"
  by (simp add: levels_inv_def level_ssts_def)

lemma view_memtable:
  "view (s\<lparr>memtable := m\<rparr>) k =
     (case mt_get m k of
        Some v \<Rightarrow> Some v
      | None \<Rightarrow> first_hit (map (level_lookup s k) [0..<Suc (cur_max_level s)]))"
proof -
  have "level_lookup (s\<lparr>memtable := m\<rparr>) k = level_lookup s k"
    by (rule ext) (simp add: level_lookup_def level_ssts_def)
  then show ?thesis by (simp add: view_def del: upt_Suc)
qed

lemma view_put_memtable:
  assumes "mem_ok c (memtable s)"
  shows "view (s\<lparr>memtable := mt_put c (memtable s) k v\<rparr>) k' =
     (if k' = k then Some v else view s k')"
proof -
  have "view s k' =
     (case mt_get (memtable s) k' of
        Some v \<Rightarrow> Some v
      | None \<Rightarrow> first_hit (map (level_lookup s k') [0..<Suc (cur_max_level s)]))"
    by (simp add: view_def del: upt_Suc)
  then show ?thesis
    by (simp add: view_memtable mt_put_get[OF assms] del: upt_Suc)
qed

lemma engine_put_preserves:
  assumes good: "good_config c" and inv: "engine_inv c s"
  shows "\<exists>s'. engine_put c s k v = Ok s' \<and> engine_inv c s'
           \<and> (\<forall>k'. view s' k' = (if k' = k then Some v else view s k'))"
proof -
  let ?s1 = "s\<lparr>memtable := mt_put c (memtable s) k v\<rparr>"
  from inv have li: "levels_inv s" and mo: "mem_ok c (memtable s)" by (simp_all add: engine_inv_def)
  have li1: "levels_inv ?s1" using li by (simp add: levels_inv_memtable)
  have mo1: "mem_ok c (memtable ?s1)" using mt_put_ok[OF mo] by simp
  have v1: "\<forall>k'. view ?s1 k' = (if k' = k then Some v else view s k')"
    using view_put_memtable[OF mo] by simp
  show ?thesis
  proof (cases "LSM_TOL_MEM_SIZE_LIMIT c \<le> get_total_size (memtable ?s1)")
    case False
    with li1 mo1 v1 show ?thesis by (simp add: engine_put_def Let_def engine_inv_def)
  next
    case True
    from good have "LSM_PER_MEM_SIZE_LIMIT c \<le> LSM_TOL_MEM_SIZE_LIMIT c"
      by (simp add: good_config_def)
    from mem_ok_flushable[OF mo1 this True]
    have "frozen_tables (memtable ?s1) \<noteq> [] \<or> get_total_size (memtable ?s1) = 0" .
    from flush_preserves[OF good li1 mo1 this] obtain s' where
      "flush c ?s1 = Ok s'" "levels_inv s'" "mem_ok c (memtable s')" "\<forall>k. view s' k = view ?s1 k"
      by blast
    with True v1 show ?thesis by (simp add: engine_put_def Let_def engine_inv_def)
  qed
qed

lemma engine_remove_preserves:
  assumes inv: "engine_inv c s"
  shows "engine_inv c (engine_remove c s k)
           \<and> (\<forall>k'. view (engine_remove c s k) k' = (if k' = k then Some [] else view s k'))"
proof -
  from inv have li: "levels_inv s" and mo: "mem_ok c (memtable s)" by (simp_all add: engine_inv_def)
  show ?thesis
    using li mt_put_ok[OF mo] view_put_memtable[OF mo]
    by (simp add: engine_remove_def mt_remove_def engine_inv_def levels_inv_memtable)
qed

lemma apply_op_preserves:
  assumes good: "good_config c" and inv: "engine_inv c s"
  shows "\<exists>s'. apply_op c s x = Ok s' \<and> engine_inv c s'
           \<and> (\<forall>k. view s' k = (if k = op_key x then Some (op_value x) else view s k))"
proof (cases x)
  case (Put k v)
  from engine_put_preserves[OF good inv, of k v] obtain s' where
    "engine_put c s k v = Ok s'" "engine_inv c s'"
    "\<forall>k'. view s' k' = (if k' = k then Some v else view s k')"
    by blast
  with Put show ?thesis by (intro exI[of _ s']) simp
next
  case (Remove k)
  with engine_remove_preserves[OF inv, of k] show ?thesis
    by (intro exI[of _ "engine_remove c s k"]) simp
qed

lemma find_app:
  "find P (xs @ ys) = (case find P xs of Some x \<Rightarrow> Some x | None \<Rightarrow> find P ys)"
  by (induction xs) auto

lemma run_ops_preserves:
  assumes good: "good_config c"
  shows "engine_inv c s \<Longrightarrow>
     \<exists>s'. run_ops c s ops = Ok s' \<and> engine_inv c s'
        \<and> (\<forall>k. view s' k = (case last_op ops k of None \<Rightarrow> view s k | Some x \<Rightarrow> Some (op_value x)))"
proof (induction ops arbitrary: s)
  case Nil
  then show ?case by (simp add: last_op_def)
next
  case (Cons x ops)
  from apply_op_preserves[OF good Cons.prems, of x] obtain s1 where s1: "apply_op c s x = Ok s1"
    "engine_inv c s1" "\<forall>k. view s1 k = (if k = op_key x then Some (op_value x) else view s k)"
    by blast
  from Cons.IH[OF s1(2)] obtain s' where s': "run_ops c s1 ops = Ok s'" "engine_inv c s'"
    "\<forall>k. view s' k = (case last_op ops k of None \<Rightarrow> view s1 k | Some x \<Rightarrow> Some (op_value x))"
    by blast
  have "view s' k = (case last_op (x # ops) k of None \<Rightarrow> view s k | Some x \<Rightarrow> Some (op_value x))" for k
    using s'(3) s1(3) by (auto simp: last_op_def find_app split: option.splits)
  with s1 s' show ?case by simp
qed

lemma empty_engine_inv: "engine_inv c empty_engine"
  by (simp add: engine_inv_def levels_inv_def mem_ok_def empty_engine_def mt_empty_def lvl_def
      level_ssts_def List.map_filter_simps run_ok_def ascending_def)

lemma view_empty: "view empty_engine k = None"
  by (simp add: view_def empty_engine_def mt_empty_def mt_get_def sl_get_def level_lookup_def
      level_ssts_def lvl_def List.map_filter_simps)

lemma expected_last_op:
  "(case (case last_op ops k of None \<Rightarrow> None | Some x \<Rightarrow> Some (op_value x)) of
      None \<Rightarrow> None | Some v \<Rightarrow> hit v) = expected (last_op ops k)"
proof (cases "last_op ops k")
  case None
  then show ?thesis by simp
next
  case (Some x)
  then show ?thesis by (cases x) (simp_all add: hit_def)
qed

text \<open>
  Claim C1, as stated: after a sequence of puts and removes on a fresh engine,
  \<open>get(k)\<close> returns the value of the last \<open>put(k, v)\<close>. This fails for the empty
  value: after \<open>put("a", "")\<close> on a fresh engine \<open>get("a")\<close> is \<open>nullopt\<close>, not the empty
  string.
\<close>

theorem get_after_put_empty:
  "last_op [Put ''a'' []] ''a'' = Some (Put ''a'' [])
   \<and> get_after small_config [Put ''a'' []] ''a'' = Inr None
   \<and> get_after small_config [Put ''a'' []] ''a'' \<noteq> Inr (Some [])"
  by code_simp

text \<open>
  Claim C1, amended: for every finite sequence of \<open>put\<close> and \<open>remove\<close> operations on a
  fresh engine (under a good configuration), every operation succeeds and a
  subsequent \<open>get(k)\<close> returns the value of the last \<open>put(k, v)\<close> if that value is not
  empty, and \<open>nullopt\<close> if the last operation on \<open>k\<close> was \<open>remove(k)\<close> or a put of the
  empty value, or if \<open>k\<close> was never written.
\<close>

theorem get_after_writes:
  assumes "good_config c"
  shows "get_after c ops k = Inr (expected (last_op ops k))"
proof -
  from run_ops_preserves[OF assms empty_engine_inv, of ops] obtain s where
    s: "run_ops c empty_engine ops = Ok s" "engine_inv c s"
    "\<forall>k. view s k = (case last_op ops k of None \<Rightarrow> view empty_engine k | Some x \<Rightarrow> Some (op_value x))"
    by blast
  from s(2) have "levels_inv s" by (simp add: engine_inv_def)
  moreover from s(3) have "view s k = (case last_op ops k of None \<Rightarrow> None | Some x \<Rightarrow> Some (op_value x))"
    by (simp add: view_empty split: option.splits)
  ultimately have "engine_get s k = Inr (expected (last_op ops k))"
    using engine_get_view[of s k] expected_last_op[of ops k] by simp
  with s(1) show ?thesis by (simp add: get_after_def)
qed

lemma small_config_good: "good_config small_config"
  by (auto simp: good_config_def small_config_def example_size_def sl_size_def)

theorem get_after_writes_witness:
  "good_config small_config
   \<and> get_after small_config example_ops ''k1'' = Inr (Some ''w1w1w1'')
   \<and> get_after small_config example_ops ''k3'' = Inr None
   \<and> get_after small_config example_ops ''k9'' = Inr None"
proof -
  have e: "expected (last_op example_ops ''k1'') = Some ''w1w1w1''"
    "expected (last_op example_ops ''k3'') = None"
    "expected (last_op example_ops ''k9'') = None"
    by code_simp+
  from get_after_writes[OF small_config_good, of example_ops] e small_config_good
  show ?thesis by simp
qed

subsection \<open>The sorted set of the Redis wrapper\<close>















subsection \<open>Compaction when writing an SST file can fail\<close>

lemma reliable_good: "sound_config c \<Longrightarrow> good_config (reliable c)"
  by (simp add: sound_config_def good_config_def reliable_def)

lemma gen_loop_reliable:
  "gen_loop c t lv iter b acc s = Ok r \<Longrightarrow> gen_loop (reliable c) t lv iter b acc s = Ok r"
proof (induction iter arbitrary: b acc s)
  case Nil
  then show ?case by simp
next
  case (Cons e iter)
  show ?case
  proof (cases "t \<le> estimated_size c (b @ [e])")
    case False
    with Cons show ?thesis by (simp add: Let_def reliable_def)
  next
    case True
    with Cons.prems have io: "io_ok c (cur_max_sst_id s)"
      by (auto simp: Let_def build_def split: if_splits)
    with Cons.prems True Cons.IH show ?thesis
      by (simp add: Let_def build_def reliable_def)
  qed
qed

lemma gen_sst_from_iter_reliable:
  assumes "gen_sst_from_iter c s iter t lv = Ok r"
  shows "gen_sst_from_iter (reliable c) s iter t lv = Ok r"
proof -
  from assms obtain x b s1 where loop: "gen_loop c t lv iter [] [] s = Ok (x, b, s1)"
    by (auto simp: gen_sst_from_iter_def split: outcome.splits)
  from gen_loop_reliable[OF loop] have loop': "gen_loop (reliable c) t lv iter [] [] s = Ok (x, b, s1)" .
  have est: "estimated_size (reliable c) = estimated_size c" by (simp add: reliable_def)
  show ?thesis
  proof (cases "estimated_size c b > 0")
    case False
    with assms loop loop' est show ?thesis by (simp add: gen_sst_from_iter_def)
  next
    case True
    with assms loop have io: "io_ok c (cur_max_sst_id s1)"
      by (auto simp: gen_sst_from_iter_def Let_def build_def split: if_splits)
    with assms loop loop' est True show ?thesis
      by (simp add: gen_sst_from_iter_def Let_def build_def reliable_def)
  qed
qed

lemma compact_target_reliable: "compact_target (reliable c) src = compact_target c src"
  by (simp add: compact_target_def get_sst_size_def reliable_def)

lemma compact_build_reliable:
  "compact_build c s src xs ys = Ok r \<Longrightarrow> compact_build (reliable c) s src xs ys = Ok r"
  by (auto simp: compact_build_target compact_target_reliable split: option.splits
      intro: gen_sst_from_iter_reliable)

lemma compact_level_reliable:
  "compact_level c s src = Ok s' \<Longrightarrow> compact_level (reliable c) s src = Ok s'"
  by (auto simp: compact_level_def Let_def split: outcome.splits dest: compact_build_reliable)

lemma full_compact_reliable:
  "full_compact c s src = Ok s' \<Longrightarrow> full_compact (reliable c) s src = Ok s'"
proof (induction c s src arbitrary: s' rule: full_compact.induct)
  case (1 c s src)
  have r: "LSM_SST_LEVEL_RATIO (reliable c) = LSM_SST_LEVEL_RATIO c" by (simp add: reliable_def)
  from "1.prems" have nz: "LSM_SST_LEVEL_RATIO c \<noteq> 0"
    by (subst (asm) full_compact.simps) (auto split: if_splits)
  show ?case
  proof (cases "LSM_SST_LEVEL_RATIO c \<le> length (lvl (level_sst_ids s) (src + 1))")
    case True
    with "1.prems" nz obtain s1 where s1: "full_compact c s (src + 1) = Ok s1"
      "compact_level c s1 src = Ok s'"
      by (subst (asm) full_compact.simps) (auto split: outcome.splits)
    from "1.IH"[OF nz True s1(1)] compact_level_reliable[OF s1(2)] True nz r
    show ?thesis by (subst full_compact.simps) simp
  next
    case False
    with "1.prems" nz have "compact_level c s src = Ok s'"
      by (subst (asm) full_compact.simps) simp
    from compact_level_reliable[OF this] False nz r
    show ?thesis by (subst full_compact.simps) simp
  qed
qed

lemma compact_level_ok_preserves:
  assumes "sound_config c" "levels_inv s" "compact_level c s src = Ok s'"
  shows "levels_inv s' \<and> memtable s' = memtable s \<and> (\<forall>k. view s' k = view s k)"
  using compact_level_preserves[OF assms(2) reliable_good[OF assms(1)], of src]
    compact_level_reliable[OF assms(3)] by auto

lemma full_compact_ok_preserves:
  assumes "sound_config c" "levels_inv s" "full_compact c s src = Ok s'"
  shows "levels_inv s' \<and> memtable s' = memtable s \<and> (\<forall>k. view s' k = view s k)"
  using full_compact_preserves[OF reliable_good[OF assms(1)] assms(2), of src]
    full_compact_reliable[OF assms(3)] by auto

lemma gen_loop_fail: "gen_loop c t lv iter b acc s = Fail e s' \<Longrightarrow> e = IOFailure"
proof (induction iter arbitrary: b acc s)
  case Nil
  then show ?case by simp
next
  case (Cons x iter)
  then show ?case
    by (auto simp: Let_def build_def split: if_splits)
qed

lemma gen_sst_from_iter_fail: "gen_sst_from_iter c s iter t lv = Fail e s' \<Longrightarrow> e = IOFailure"
  by (auto simp: gen_sst_from_iter_def Let_def build_def split: outcome.splits if_splits
      dest: gen_loop_fail)

lemma compact_build_fail:
  assumes "levels_inv s"
    "compact_build c s src (lvl (level_sst_ids s) src) (lvl (level_sst_ids s) (src + 1)) = Fail e s'"
  shows "e = IOFailure \<and> build_only s s'"
proof -
  from assms have "gen_sst_from_iter c s (compact_cursor src (level_ssts s src) (level_ssts s (src + 1)))
      (compact_target c src) (src + 1) = Fail e s'"
    by (simp add: compact_build_target levels_inv_registered)
  then have "e = IOFailure" by (rule gen_sst_from_iter_fail)
  moreover from compact_build_build_only[of s c src "lvl (level_sst_ids s) src"
      "lvl (level_sst_ids s) (src + 1)"] assms(2)
  have "build_only s s'" by simp
  ultimately show ?thesis by simp
qed

lemma build_only_level_ssts: "build_only s s' \<Longrightarrow> level_ssts s' l = level_ssts s l"
  by (simp add: build_only_def level_ssts_def)

lemma build_only_levels_inv:
  assumes "build_only s s'" "levels_inv s"
  shows "levels_inv s'"
proof -
  from assms(1) have f: "ssts s' = ssts s" "level_sst_ids s' = level_sst_ids s"
    "cur_max_level s' = cur_max_level s" "cur_max_sst_id s \<le> cur_max_sst_id s'"
    by (simp_all add: build_only_def)
  have ls: "level_ssts s' l = level_ssts s l" for l
    by (rule build_only_level_ssts[OF assms(1)])
  from assms(2) show ?thesis
    unfolding levels_inv_def f(1,2,3) ls using f(4) by fastforce
qed

lemma build_only_view:
  assumes "build_only s s'"
  shows "view s' k = view s k"
proof -
  from assms have f: "memtable s' = memtable s" "cur_max_level s' = cur_max_level s"
    by (simp_all add: build_only_def)
  have "level_lookup s' k = level_lookup s k"
    by (rule ext) (simp add: level_lookup_def build_only_level_ssts[OF assms])
  then show ?thesis by (simp add: view_def f del: upt_Suc)
qed

lemma build_only_files_inv:
  assumes bo: "build_only s s'" and inv: "levels_inv s" and fi: "files_inv s"
  shows "files_inv s'"
proof -
  from bo have f: "ssts s' = ssts s" "level_sst_ids s' = level_sst_ids s"
    by (simp_all add: build_only_def)
  from bo have d: "fst p < cur_max_sst_id s \<Longrightarrow> disk s' p = disk s p" for p
    unfolding build_only_def by blast
  have "sst_path sst = get_sst_path sid l \<and> disk s' (sst_path sst) = Some (sst_entries sst)"
    if "sid \<in> set (lvl (level_sst_ids s) l)" "ssts s sid = Some sst" for l sid sst
  proof -
    from fi that have p: "sst_path sst = get_sst_path sid l"
      "disk s (sst_path sst) = Some (sst_entries sst)"
      unfolding files_inv_def by blast+
    from inv that(1) have "sid < cur_max_sst_id s" unfolding levels_inv_def by blast
    with p d[of "sst_path sst"] show ?thesis by (simp add: get_sst_path_def)
  qed
  with fi show ?thesis unfolding files_inv_def f by blast
qed

lemma gen_loop_files:
  assumes "gen_loop c t lv iter b acc s = Ok (r, b', s')"
    "\<forall>x \<in> set acc. sst_path x = get_sst_path (sst_id x) lv \<and> sst_id x < cur_max_sst_id s
        \<and> disk s (sst_path x) = Some (sst_entries x)"
  shows "\<forall>x \<in> set r. sst_path x = get_sst_path (sst_id x) lv \<and> sst_id x < cur_max_sst_id s'
        \<and> disk s' (sst_path x) = Some (sst_entries x)"
  using assms
proof (induction iter arbitrary: b acc s)
  case Nil
  from Nil(1) have "acc = r" "s = s'" by simp_all
  with Nil(2) show ?case by blast
next
  case (Cons e iter)
  show ?case
  proof (cases "t \<le> estimated_size c (b @ [e])")
    case False
    with Cons.prems(1) have "gen_loop c t lv iter (b @ [e]) acc s = Ok (r, b', s')"
      by (simp add: Let_def)
    from Cons.IH[OF this Cons.prems(2)] show ?thesis .
  next
    case True
    define sst where "sst = \<lparr>sst_id = cur_max_sst_id s,
        sst_path = get_sst_path (cur_max_sst_id s) lv, sst_entries = b @ [e]\<rparr>"
    define s2 where "s2 = s\<lparr>cur_max_sst_id := cur_max_sst_id s + 1,
        disk := (disk s)(get_sst_path (cur_max_sst_id s) lv \<mapsto> b @ [e])\<rparr>"
    from Cons.prems(1) True have run: "gen_loop c t lv iter [] (acc @ [sst]) s2 = Ok (r, b', s')"
      by (auto simp: Let_def build_def sst_def s2_def split: if_splits)
    have "\<forall>x \<in> set (acc @ [sst]). sst_path x = get_sst_path (sst_id x) lv
        \<and> sst_id x < cur_max_sst_id s2 \<and> disk s2 (sst_path x) = Some (sst_entries x)"
      using Cons.prems(2) by (auto simp: sst_def s2_def get_sst_path_def)
    from Cons.IH[OF run this] show ?thesis .
  qed
qed

lemma gen_sst_from_iter_files:
  assumes "gen_sst_from_iter c s iter t lv = Ok (new_ssts, s')"
  shows "\<forall>x \<in> set new_ssts. sst_path x = get_sst_path (sst_id x) lv
        \<and> disk s' (sst_path x) = Some (sst_entries x)"
proof -
  from assms obtain r b s1 where loop: "gen_loop c t lv iter [] [] s = Ok (r, b, s1)"
    by (auto simp: gen_sst_from_iter_def split: outcome.splits)
  have "\<forall>x \<in> set ([] :: SST list). sst_path x = get_sst_path (sst_id x) lv
      \<and> sst_id x < cur_max_sst_id s \<and> disk s (sst_path x) = Some (sst_entries x)"
    by simp
  from gen_loop_files[OF loop this]
  have r: "\<forall>x \<in> set r. sst_path x = get_sst_path (sst_id x) lv
      \<and> sst_id x < cur_max_sst_id s1 \<and> disk s1 (sst_path x) = Some (sst_entries x)" .
  show ?thesis
  proof (cases "estimated_size c b > 0")
    case False
    with assms loop have "new_ssts = r" "s' = s1" by (auto simp: gen_sst_from_iter_def)
    with r show ?thesis by blast
  next
    case True
    define sst where "sst = \<lparr>sst_id = cur_max_sst_id s1,
        sst_path = get_sst_path (cur_max_sst_id s1) lv, sst_entries = b\<rparr>"
    from assms loop True have res: "new_ssts = r @ [sst]"
      "s' = s1\<lparr>cur_max_sst_id := cur_max_sst_id s1 + 1,
               disk := (disk s1)(get_sst_path (cur_max_sst_id s1) lv \<mapsto> b)\<rparr>"
      by (auto simp: gen_sst_from_iter_def Let_def build_def sst_def split: if_splits)
    have "sst_path x = get_sst_path (sst_id x) lv \<and> disk s' (sst_path x) = Some (sst_entries x)"
      if "x \<in> set new_ssts" for x
    proof (cases "x = sst")
      case True
      then show ?thesis by (simp add: sst_def res(2))
    next
      case False
      with that res(1) have "x \<in> set r" by simp
      with r have "sst_path x = get_sst_path (sst_id x) lv" "sst_id x < cur_max_sst_id s1"
        "disk s1 (sst_path x) = Some (sst_entries x)" by blast+
      then show ?thesis by (simp add: res(2) get_sst_path_def)
    qed
    then show ?thesis by blast
  qed
qed

lemma del_ssts_disk:
  "distinct ids \<Longrightarrow> del_ssts s ids = Ok s' \<Longrightarrow>
     disk s' p = (if \<exists>i \<in> set ids. \<exists>sst. ssts s i = Some sst \<and> sst_path sst = p
                  then None else disk s p)"
proof (induction ids arbitrary: s)
  case Nil
  then show ?case by simp
next
  case (Cons a ids)
  from Cons.prems(2) obtain old where old: "ssts s a = Some old"
    and run: "del_ssts (s\<lparr>disk := (disk s)(sst_path old := None), ssts := (ssts s)(a := None)\<rparr>) ids = Ok s'"
    by (auto split: option.splits)
  from Cons.prems(1) have d: "distinct ids" "a \<notin> set ids" by simp_all
  from Cons.IH[OF d(1) run] d(2) old show ?case by auto
qed

lemma del_ssts_fields:
  "del_ssts s ids = Ok s' \<Longrightarrow>
     memtable s' = memtable s \<and> level_sst_ids s' = level_sst_ids s
     \<and> cur_max_sst_id s' = cur_max_sst_id s \<and> cur_max_level s' = cur_max_level s"
proof (induction ids arbitrary: s)
  case Nil
  then show ?case by simp
next
  case (Cons a ids)
  from Cons.prems obtain old where old: "ssts s a = Some old"
    and run: "del_ssts (s\<lparr>disk := (disk s)(sst_path old := None), ssts := (ssts s)(a := None)\<rparr>) ids = Ok s'"
    by (auto split: option.splits)
  from Cons.IH[OF run] show ?case by simp
qed

lemma compact_steps:
  assumes inv: "levels_inv s"
    and build: "compact_build c s src (lvl (level_sst_ids s) src)
        (lvl (level_sst_ids s) (src + 1)) = Ok (new, s1)"
  shows "build_only s s1
     \<and> map sst_id new = [cur_max_sst_id s ..< cur_max_sst_id s + length new]
     \<and> cur_max_sst_id s1 = cur_max_sst_id s + length new
     \<and> (\<forall>x \<in> set new. sst_path x = get_sst_path (sst_id x) (src + 1)
           \<and> disk s1 (sst_path x) = Some (sst_entries x))
     \<and> (\<exists>s2. compact_remove_old s1 src (lvl (level_sst_ids s) src)
                (lvl (level_sst_ids s) (src + 1)) = Ok s2
          \<and> compact_level c s src = Ok (compact_register s2 src new)
          \<and> ssts s2 = (\<lambda>i. if i \<in> set (lvl (level_sst_ids s) src)
                                  \<union> set (lvl (level_sst_ids s) (src + 1))
                             then None else ssts s i)
          \<and> (\<forall>l. lvl (level_sst_ids s2) l =
                 (if l = src \<or> l = src + 1 then [] else lvl (level_sst_ids s) l))
          \<and> (\<forall>p. disk s2 p =
                 (if \<exists>i \<in> set (lvl (level_sst_ids s) src) \<union> set (lvl (level_sst_ids s) (src + 1)).
                       \<exists>sst. ssts s i = Some sst \<and> sst_path sst = p
                  then None else disk s1 p))
          \<and> cur_max_sst_id s2 = cur_max_sst_id s1 \<and> cur_max_level s2 = cur_max_level s
          \<and> memtable s2 = memtable s)"
proof -
  let ?X = "lvl (level_sst_ids s) src" and ?Y = "lvl (level_sst_ids s) (src + 1)"
  let ?M = "compact_cursor src (level_ssts s src) (level_ssts s (src + 1))"
  from build have gen: "gen_sst_from_iter c s ?M (compact_target c src) (src + 1) = Ok (new, s1)"
    by (simp add: compact_build_target levels_inv_registered[OF inv])
  from gen_sst_from_iter_build_only[of s c ?M "compact_target c src" "src + 1"] gen
  have bo: "build_only s s1" by simp
  from gen_sst_from_iter_chunks[OF gen]
  have ids: "map sst_id new = [cur_max_sst_id s ..< cur_max_sst_id s + length new]"
    and cm: "cur_max_sst_id s1 = cur_max_sst_id s + length new"
    by simp_all
  note files = gen_sst_from_iter_files[OF gen]
  from bo have s1: "memtable s1 = memtable s" "ssts s1 = ssts s"
    "level_sst_ids s1 = level_sst_ids s" "cur_max_level s1 = cur_max_level s"
    by (simp_all add: build_only_def)
  from inv have dX: "distinct ?X" and dY: "distinct ?Y" and disj: "set ?X \<inter> set ?Y = {}"
    and regX: "\<forall>i \<in> set ?X. ssts s i \<noteq> None" and regY: "\<forall>i \<in> set ?Y. ssts s i \<noteq> None"
    unfolding levels_inv_def by (blast, blast, simp, blast, blast)
  have "\<forall>i \<in> set ?X. ssts s1 i \<noteq> None" using regX s1 by simp
  from del_ssts_ok[OF dX this] obtain sa where sa: "del_ssts s1 ?X = Ok sa"
    "ssts sa = (\<lambda>i. if i \<in> set ?X then None else ssts s i)"
    unfolding s1 by blast
  have "\<forall>i \<in> set ?Y. ssts sa i \<noteq> None" using regY disj sa(2) by auto
  from del_ssts_ok[OF dY this] obtain sb where sb: "del_ssts sa ?Y = Ok sb"
    "ssts sb = (\<lambda>i. if i \<in> set ?Y then None else ssts sa i)"
    by blast
  note fa = del_ssts_fields[OF sa(1)] and fb = del_ssts_fields[OF sb(1)]
  have da: "disk sa p = (if \<exists>i \<in> set ?X. \<exists>sst. ssts s i = Some sst \<and> sst_path sst = p
                         then None else disk s1 p)" for p
    using del_ssts_disk[OF dX sa(1), of p] by (simp add: s1)
  have db: "disk sb p = (if \<exists>i \<in> set ?Y. \<exists>sst. ssts s i = Some sst \<and> sst_path sst = p
                         then None else disk sa p)" for p
  proof -
    have "(\<exists>i \<in> set ?Y. \<exists>sst. ssts sa i = Some sst \<and> sst_path sst = p)
        \<longleftrightarrow> (\<exists>i \<in> set ?Y. \<exists>sst. ssts s i = Some sst \<and> sst_path sst = p)"
      using disj by (auto simp: sa(2))
    with del_ssts_disk[OF dY sb(1), of p] show ?thesis by simp
  qed
  define s2 where "s2 = sb\<lparr>level_sst_ids := lvl_set (src + 1) [] (lvl_set src [] (level_sst_ids sb))\<rparr>"
  have rm: "compact_remove_old s1 src ?X ?Y = Ok s2"
    by (simp only: compact_remove_old_def sa(1) sb(1) outcome.case s2_def)
  have res: "compact_level c s src = Ok (compact_register s2 src new)"
    by (simp only: compact_level_def Let_def build prod.case outcome.case rm)
  have ss2: "ssts s2 = (\<lambda>i. if i \<in> set ?X \<union> set ?Y then None else ssts s i)"
    by (rule ext) (simp add: s2_def sb(2) sa(2))
  have l2: "lvl (level_sst_ids s2) l = (if l = src \<or> l = src + 1 then [] else lvl (level_sst_ids s) l)"
    for l
    using fa fb by (simp add: s2_def lvl_lvl_set s1)
  have d2: "disk s2 p = (if \<exists>i \<in> set ?X \<union> set ?Y. \<exists>sst. ssts s i = Some sst \<and> sst_path sst = p
                         then None else disk s1 p)" for p
    by (auto simp: s2_def db da)
  have f2: "cur_max_sst_id s2 = cur_max_sst_id s1" "cur_max_level s2 = cur_max_level s"
    "memtable s2 = memtable s"
    using fa fb by (simp_all add: s2_def s1)
  from bo ids cm files rm res ss2 l2 d2 f2 show ?thesis by blast
qed

lemma compact_register_effect:
  assumes d: "distinct (map sst_id new)" and srt: "sorted (map sst_id new)"
    and e: "lvl (level_sst_ids s2) (src + 1) = []"
  shows "(\<forall>l. lvl (level_sst_ids (compact_register s2 src new)) l =
            (if l = src + 1 then map sst_id new else lvl (level_sst_ids s2) l))
     \<and> (\<forall>i. ssts (compact_register s2 src new) i =
            (case find (\<lambda>x. sst_id x = i) new of Some x \<Rightarrow> Some x | None \<Rightarrow> ssts s2 i))
     \<and> disk (compact_register s2 src new) = disk s2
     \<and> memtable (compact_register s2 src new) = memtable s2
     \<and> cur_max_sst_id (compact_register s2 src new) = cur_max_sst_id s2
     \<and> cur_max_level (compact_register s2 src new) = max (cur_max_level s2) (src + 1)"
proof -
  define sr where "sr = add_ssts (src + 1) (s2\<lparr>cur_max_level := max (cur_max_level s2) (src + 1)\<rparr>) new"
  have s3: "compact_register s2 src new
      = sr\<lparr>level_sst_ids := lvl_set (src + 1) (sort (lvl (level_sst_ids sr) (src + 1)))
                (level_sst_ids sr)\<rparr>"
    by (simp add: compact_register_def Let_def sr_def)
  have srl: "lvl (level_sst_ids sr) l =
      (if l = src + 1 then map sst_id new else lvl (level_sst_ids s2) l)" for l
    using e by (simp add: sr_def add_ssts_lvl)
  have "sort (map sst_id new) = map sst_id new"
    by (rule sorted_sort_id[OF srt])
  then have l3: "lvl (level_sst_ids (compact_register s2 src new)) l =
      (if l = src + 1 then map sst_id new else lvl (level_sst_ids s2) l)" for l
    by (simp add: s3 lvl_lvl_set srl)
  have ss3: "ssts (compact_register s2 src new) i =
      (case find (\<lambda>x. sst_id x = i) new of Some x \<Rightarrow> Some x | None \<Rightarrow> ssts s2 i)" for i
    by (simp add: s3 sr_def add_ssts_ssts[OF d] split: option.splits)
  have f3: "disk (compact_register s2 src new) = disk s2"
    "memtable (compact_register s2 src new) = memtable s2"
    "cur_max_sst_id (compact_register s2 src new) = cur_max_sst_id s2"
    "cur_max_level (compact_register s2 src new) = max (cur_max_level s2) (src + 1)"
    by (simp_all add: s3 sr_def add_ssts_fields)
  from l3 ss3 f3 show ?thesis by blast
qed

lemma find_Some_id: "find (\<lambda>x. sst_id x = i) new = Some x \<Longrightarrow> x \<in> set new \<and> sst_id x = i"
  by (auto simp: find_Some_iff)

lemma compact_level_files:
  assumes inv: "levels_inv s" and fi: "files_inv s"
    and res: "compact_level c s src = Ok s'"
  shows "files_inv s'"
proof -
  let ?X = "lvl (level_sst_ids s) src" and ?Y = "lvl (level_sst_ids s) (src + 1)"
  let ?n = "cur_max_sst_id s"
  from res obtain new s1 where build: "compact_build c s src ?X ?Y = Ok (new, s1)"
    by (auto simp: compact_level_def Let_def split: outcome.splits)
  from compact_steps[OF inv build] obtain s2 where
    bo: "build_only s s1"
    and ids: "map sst_id new = [?n ..< ?n + length new]"
    and files: "\<forall>x \<in> set new. sst_path x = get_sst_path (sst_id x) (src + 1)
           \<and> disk s1 (sst_path x) = Some (sst_entries x)"
    and cl: "compact_level c s src = Ok (compact_register s2 src new)"
    and ss2: "ssts s2 = (\<lambda>i. if i \<in> set ?X \<union> set ?Y then None else ssts s i)"
    and l2: "\<And>l. lvl (level_sst_ids s2) l =
                 (if l = src \<or> l = src + 1 then [] else lvl (level_sst_ids s) l)"
    and d2: "\<And>p. disk s2 p =
                 (if \<exists>i \<in> set ?X \<union> set ?Y. \<exists>sst. ssts s i = Some sst \<and> sst_path sst = p
                  then None else disk s1 p)"
    by blast
  from cl res have s': "s' = compact_register s2 src new" by simp
  have dnew: "distinct (map sst_id new)" and snew: "sorted (map sst_id new)"
    unfolding ids by simp_all
  have e2: "lvl (level_sst_ids s2) (src + 1) = []" by (simp add: l2)
  from compact_register_effect[OF dnew snew e2]
  have eff: "\<And>l. lvl (level_sst_ids s') l =
        (if l = src + 1 then map sst_id new else lvl (level_sst_ids s2) l)"
    "\<And>i. ssts s' i =
        (case find (\<lambda>x. sst_id x = i) new of Some x \<Rightarrow> Some x | None \<Rightarrow> ssts s2 i)"
    and dk: "disk s' = disk s2"
    unfolding s' by blast+
  have lv: "lvl (level_sst_ids s') l =
        (if l = src + 1 then map sst_id new else if l = src then [] else lvl (level_sst_ids s) l)"
    for l
    by (simp add: eff(1) l2)
  have ss: "ssts s' i =
        (case find (\<lambda>x. sst_id x = i) new of
           Some x \<Rightarrow> Some x
         | None \<Rightarrow> if i \<in> set ?X \<union> set ?Y then None else ssts s i)" for i
    by (simp add: eff(2) ss2 split: option.splits)
  have new_ge: "?n \<le> sst_id x" if "x \<in> set new" for x
  proof -
    from that have "sst_id x \<in> set (map sst_id new)" by simp
    then show ?thesis unfolding ids by simp
  qed
  have old_lt: "sid < ?n" if "sid \<in> set (lvl (level_sst_ids s) l)" for sid l
    using inv that unfolding levels_inv_def by blast
  have old_path: "sst_path old = get_sst_path i l \<and> disk s (sst_path old) = Some (sst_entries old)"
    if "i \<in> set (lvl (level_sst_ids s) l)" "ssts s i = Some old" for i l old
    using fi that unfolding files_inv_def by blast
  have kept: "disk s' p = disk s1 p"
    if "\<forall>i \<in> set ?X \<union> set ?Y. fst p \<noteq> i" for p
  proof -
    have "\<not> (\<exists>i \<in> set ?X \<union> set ?Y. \<exists>sst. ssts s i = Some sst \<and> sst_path sst = p)"
    proof
      assume "\<exists>i \<in> set ?X \<union> set ?Y. \<exists>sst. ssts s i = Some sst \<and> sst_path sst = p"
      then obtain i old where i: "i \<in> set ?X \<union> set ?Y" "ssts s i = Some old" "sst_path old = p"
        by blast
      from i(1) obtain l where "i \<in> set (lvl (level_sst_ids s) l)" by auto
      from old_path[OF this i(2)] i(3) have "fst p = i" by (auto simp: get_sst_path_def)
      with that i(1) show False by blast
    qed
    then show ?thesis unfolding dk d2 by (simp only: if_False)
  qed
  have p1: "\<exists>l. sid \<in> set (lvl (level_sst_ids s') l)" if "ssts s' sid = Some sst" for sid sst
  proof (cases "find (\<lambda>x. sst_id x = sid) new")
    case (Some x)
    from find_Some_id[OF Some] have "sid \<in> set (map sst_id new)" by auto
    then have "sid \<in> set (lvl (level_sst_ids s') (src + 1))" by (simp add: lv)
    then show ?thesis by blast
  next
    case None
    with that ss[of sid] have a: "sid \<notin> set ?X \<union> set ?Y" "ssts s sid = Some sst"
      by (auto split: if_splits)
    from fi a(2) obtain l where l: "sid \<in> set (lvl (level_sst_ids s) l)"
      unfolding files_inv_def by blast
    with a(1) have "l \<noteq> src" "l \<noteq> src + 1" by auto
    with l have "sid \<in> set (lvl (level_sst_ids s') l)" by (simp add: lv)
    then show ?thesis by blast
  qed
  have p2: "sst_path sst = get_sst_path sid l \<and> disk s' (sst_path sst) = Some (sst_entries sst)"
    if sid: "sid \<in> set (lvl (level_sst_ids s') l)" and reg: "ssts s' sid = Some sst" for l sid sst
  proof -
    consider "l = src + 1" | "l = src" | "l \<noteq> src" "l \<noteq> src + 1" by blast
    then show ?thesis
    proof cases
      case 1
      with sid lv[of l] obtain x where x: "x \<in> set new" "sst_id x = sid" by auto
      from find_id_Some[OF dnew x(1)] x(2) reg ss[of sid] have sx: "sst = x" by simp
      from files x(1) have f: "sst_path x = get_sst_path sid (src + 1)"
        "disk s1 (sst_path x) = Some (sst_entries x)"
        using x(2) by auto
      have "\<forall>i \<in> set ?X \<union> set ?Y. fst (sst_path x) \<noteq> i"
        using new_ge[OF x(1)] old_lt x(2) f(1) by (fastforce simp: get_sst_path_def)
      from kept[OF this] f 1 sx show ?thesis by simp
    next
      case 2
      with sid lv[of l] show ?thesis by simp
    next
      case 3
      with sid lv[of l] have old: "sid \<in> set (lvl (level_sst_ids s) l)" by simp
      have "sid \<notin> sst_id ` set new" using old_lt[OF old] new_ge by fastforce
      then have fn: "find (\<lambda>x. sst_id x = sid) new = None" by (rule find_id_None)
      from inv old 3 have nx: "sid \<notin> set ?X \<union> set ?Y"
        unfolding levels_inv_def by blast
      with fn reg ss[of sid] have r: "ssts s sid = Some sst" by simp
      from old_path[OF old r] have f: "sst_path sst = get_sst_path sid l"
        "disk s (sst_path sst) = Some (sst_entries sst)" by blast+
      have "\<forall>i \<in> set ?X \<union> set ?Y. fst (sst_path sst) \<noteq> i"
        using nx f(1) by (auto simp: get_sst_path_def)
      from kept[OF this] have "disk s' (sst_path sst) = disk s1 (sst_path sst)" .
      also have "\<dots> = disk s (sst_path sst)"
        using bo old_lt[OF old] f(1) unfolding build_only_def by (simp add: get_sst_path_def)
      finally show ?thesis using f by simp
    qed
  qed
  show ?thesis unfolding files_inv_def using p1 p2 by blast
qed

lemma full_compact_files:
  assumes "sound_config c"
  shows "levels_inv s \<Longrightarrow> files_inv s \<Longrightarrow> full_compact c s src = Ok s' \<Longrightarrow> files_inv s'"
  using assms
proof (induction c s src arbitrary: s' rule: full_compact.induct)
  case (1 c s src)
  from "1.prems"(4) have nz: "LSM_SST_LEVEL_RATIO c \<noteq> 0" by (simp add: sound_config_def)
  show ?case
  proof (cases "LSM_SST_LEVEL_RATIO c \<le> length (lvl (level_sst_ids s) (src + 1))")
    case True
    with "1.prems"(3) nz obtain s1 where s1: "full_compact c s (src + 1) = Ok s1"
      "compact_level c s1 src = Ok s'"
      by (subst (asm) full_compact.simps) (auto split: outcome.splits)
    from "1.IH"[OF nz True "1.prems"(1,2) s1(1) "1.prems"(4)] have f1: "files_inv s1" .
    from full_compact_ok_preserves[OF "1.prems"(4,1) s1(1)] have i1: "levels_inv s1" by simp
    from compact_level_files[OF i1 f1 s1(2)] show ?thesis .
  next
    case False
    with "1.prems"(3) nz have "compact_level c s src = Ok s'"
      by (subst (asm) full_compact.simps) simp
    from compact_level_files[OF "1.prems"(1,2) this] show ?thesis .
  qed
qed

lemma nested_compact_ok:
  assumes "sound_config c" "levels_inv s" "files_inv s" "nested_compact c s src = Ok s0"
  shows "levels_inv s0 \<and> files_inv s0 \<and> memtable s0 = memtable s \<and> (\<forall>k. view s0 k = view s k)"
proof (cases "LSM_SST_LEVEL_RATIO c \<le> length (lvl (level_sst_ids s) (src + 1))")
  case True
  with assms(4) have r: "full_compact c s (src + 1) = Ok s0" by (simp add: nested_compact_def)
  from full_compact_ok_preserves[OF assms(1,2) r] full_compact_files[OF assms(1,2,3) r]
  show ?thesis by simp
next
  case False
  with assms show ?thesis by (simp add: nested_compact_def)
qed

lemma full_compact_nested:
  "0 < LSM_SST_LEVEL_RATIO c \<Longrightarrow>
     full_compact c s src =
       (case nested_compact c s src of
          Fail e s' \<Rightarrow> Fail e s'
        | Ok s0 \<Rightarrow> compact_level c s0 src)"
  by (subst full_compact.simps) (simp add: nested_compact_def)

lemma compact_level_fail:
  assumes inv: "levels_inv s" and res: "compact_level c s src = Fail e s'"
  shows "e = IOFailure \<and> build_only s s'"
proof (cases "compact_build c s src (lvl (level_sst_ids s) src) (lvl (level_sst_ids s) (src + 1))")
  case (Fail e1 s1)
  with res have "e1 = e" "s1 = s'" by (simp_all add: compact_level_def Let_def)
  with compact_build_fail[OF inv Fail] show ?thesis by simp
next
  case (Ok p)
  obtain new s1 where p: "p = (new, s1)" by (cases p)
  from compact_steps[OF inv Ok[unfolded p]] obtain s2 where
    "compact_level c s src = Ok (compact_register s2 src new)" by blast
  with res show ?thesis by simp
qed

lemma full_compact_fail:
  assumes "sound_config c"
  shows "levels_inv s \<Longrightarrow> files_inv s \<Longrightarrow> full_compact c s src = Fail e s' \<Longrightarrow>
     e = IOFailure \<and> levels_inv s' \<and> files_inv s' \<and> (\<forall>k. view s' k = view s k)"
  using assms
proof (induction c s src arbitrary: e s' rule: full_compact.induct)
  case (1 c s src)
  from "1.prems"(4) have nz: "LSM_SST_LEVEL_RATIO c \<noteq> 0" by (simp add: sound_config_def)
  have body: "e = IOFailure \<and> levels_inv s' \<and> files_inv s' \<and> (\<forall>k. view s' k = view s0 k)"
    if "levels_inv s0" "files_inv s0" "compact_level c s0 src = Fail e s'" for s0
  proof -
    from compact_level_fail[OF that(1,3)] have e: "e = IOFailure" and bo: "build_only s0 s'"
      by simp_all
    from e build_only_levels_inv[OF bo that(1)] build_only_files_inv[OF bo that(1,2)]
      build_only_view[OF bo]
    show ?thesis by simp
  qed
  show ?case
  proof (cases "LSM_SST_LEVEL_RATIO c \<le> length (lvl (level_sst_ids s) (src + 1))")
    case True
    show ?thesis
    proof (cases "full_compact c s (src + 1)")
      case (Fail e1 s1)
      with "1.prems"(3) nz True have "e1 = e" "s1 = s'"
        by (subst (asm) full_compact.simps, simp)+
      with "1.IH"[OF nz True "1.prems"(1,2) _ "1.prems"(4), of e s'] Fail show ?thesis by simp
    next
      case (Ok s1)
      with "1.prems"(3) nz True have cl: "compact_level c s1 src = Fail e s'"
        by (subst (asm) full_compact.simps) simp
      from full_compact_ok_preserves[OF "1.prems"(4,1) Ok]
      have i1: "levels_inv s1" and v1: "\<forall>k. view s1 k = view s k" by simp_all
      from full_compact_files[OF "1.prems"(4,1,2) Ok] have f1: "files_inv s1" .
      from body[OF i1 f1 cl] v1 show ?thesis by simp
    qed
  next
    case False
    with "1.prems"(3) nz have "compact_level c s src = Fail e s'"
      by (subst (asm) full_compact.simps) simp
    from body[OF "1.prems"(1,2) this] show ?thesis .
  qed
qed

lemma nested_compact_fail:
  assumes "sound_config c" "levels_inv s" "files_inv s" "nested_compact c s src = Fail e s'"
  shows "e = IOFailure \<and> levels_inv s' \<and> files_inv s' \<and> (\<forall>k. view s' k = view s k)"
proof (cases "LSM_SST_LEVEL_RATIO c \<le> length (lvl (level_sst_ids s) (src + 1))")
  case True
  with assms(4) have "full_compact c s (src + 1) = Fail e s'" by (simp add: nested_compact_def)
  from full_compact_fail[OF assms(1,2,3) this] show ?thesis .
next
  case False
  with assms(4) show ?thesis by (simp add: nested_compact_def)
qed

text \<open>
  Claim C7, amended, for a state that satisfies the invariants of the level map and of
  the files. \<open>full_compact\<close> first runs the nested compaction of the next level, if
  that is full; a failure of the nested call ends it. Then it builds the new SSTs from
  the SSTs that the levels \<open>src_level\<close> and \<open>src_level + 1\<close> hold at that moment.
  Building leaves \<open>ssts\<close>, the level map and the file of every registered SST as they
  are; if it fails, \<open>full_compact\<close> stops there. Every failure is an I/O failure and
  leaves a state in which the invariants hold, so that every registered SST has its
  file, and in which every key reads as before the call. Only when all new SSTs are
  built are the old SSTs of the two levels erased and their files deleted, at which
  point the new SSTs have their files but are in neither \<open>ssts\<close> nor the level map;
  they are registered by the last step.
\<close>

theorem full_compact_removes_old_after_build:
  assumes c: "sound_config c" and inv: "levels_inv s" and fi: "files_inv s"
  shows
   "case nested_compact c s src_level of
      Fail e s' \<Rightarrow>
        full_compact c s src_level = Fail e s' \<and> e = IOFailure
        \<and> levels_inv s' \<and> files_inv s' \<and> (\<forall>k. view s' k = view s k)
    | Ok s0 \<Rightarrow>
        levels_inv s0 \<and> files_inv s0 \<and> (\<forall>k. view s0 k = view s k)
        \<and> (case compact_build c s0 src_level (lvl (level_sst_ids s0) src_level)
                   (lvl (level_sst_ids s0) (src_level + 1)) of
             Fail e s' \<Rightarrow>
               full_compact c s src_level = Fail e s' \<and> e = IOFailure
               \<and> ssts s' = ssts s0 \<and> level_sst_ids s' = level_sst_ids s0
               \<and> levels_inv s' \<and> files_inv s' \<and> (\<forall>k. view s' k = view s k)
           | Ok (new_ssts, s1) \<Rightarrow>
               ssts s1 = ssts s0 \<and> level_sst_ids s1 = level_sst_ids s0 \<and> files_inv s1
               \<and> (\<forall>x \<in> set new_ssts.
                     disk s1 (sst_path x) = Some (sst_entries x) \<and> ssts s1 (sst_id x) = None)
               \<and> (\<exists>s2. compact_remove_old s1 src_level (lvl (level_sst_ids s0) src_level)
                           (lvl (level_sst_ids s0) (src_level + 1)) = Ok s2
                     \<and> (\<forall>sid \<in> set (lvl (level_sst_ids s0) src_level)
                                 \<union> set (lvl (level_sst_ids s0) (src_level + 1)).
                          \<forall>sst. ssts s0 sid = Some sst \<longrightarrow>
                            ssts s2 sid = None \<and> disk s2 (sst_path sst) = None)
                     \<and> (\<forall>x \<in> set new_ssts.
                           ssts s2 (sst_id x) = None
                           \<and> (\<forall>l. sst_id x \<notin> set (lvl (level_sst_ids s2) l))
                           \<and> disk s2 (sst_path x) = Some (sst_entries x))
                     \<and> full_compact c s src_level = Ok (compact_register s2 src_level new_ssts)
                     \<and> lvl (level_sst_ids (compact_register s2 src_level new_ssts)) (src_level + 1)
                         = map sst_id new_ssts
                     \<and> (\<forall>x \<in> set new_ssts.
                           ssts (compact_register s2 src_level new_ssts) (sst_id x) = Some x)))"
proof (cases "nested_compact c s src_level")
  case (Fail e s')
  from c have "0 < LSM_SST_LEVEL_RATIO c" by (simp add: sound_config_def)
  from full_compact_nested[OF this, of s src_level] Fail nested_compact_fail[OF c inv fi Fail]
  show ?thesis by simp
next
  case (Ok s0)
  let ?X = "lvl (level_sst_ids s0) src_level" and ?Y = "lvl (level_sst_ids s0) (src_level + 1)"
  let ?n = "cur_max_sst_id s0"
  from c have "0 < LSM_SST_LEVEL_RATIO c" by (simp add: sound_config_def)
  from full_compact_nested[OF this, of s src_level] Ok
  have fc: "full_compact c s src_level = compact_level c s0 src_level" by simp
  from nested_compact_ok[OF c inv fi Ok] have inv0: "levels_inv s0" and fi0: "files_inv s0"
    and v0: "\<forall>k. view s0 k = view s k"
    by simp_all
  have old_lt: "sid < ?n" if "sid \<in> set (lvl (level_sst_ids s0) l)" for sid l
    using inv0 that unfolding levels_inv_def by blast
  have body: "case compact_build c s0 src_level ?X ?Y of
             Fail e s' \<Rightarrow>
               full_compact c s src_level = Fail e s' \<and> e = IOFailure
               \<and> ssts s' = ssts s0 \<and> level_sst_ids s' = level_sst_ids s0
               \<and> levels_inv s' \<and> files_inv s' \<and> (\<forall>k. view s' k = view s k)
           | Ok (new_ssts, s1) \<Rightarrow>
               ssts s1 = ssts s0 \<and> level_sst_ids s1 = level_sst_ids s0 \<and> files_inv s1
               \<and> (\<forall>x \<in> set new_ssts.
                     disk s1 (sst_path x) = Some (sst_entries x) \<and> ssts s1 (sst_id x) = None)
               \<and> (\<exists>s2. compact_remove_old s1 src_level ?X ?Y = Ok s2
                     \<and> (\<forall>sid \<in> set ?X \<union> set ?Y.
                          \<forall>sst. ssts s0 sid = Some sst \<longrightarrow>
                            ssts s2 sid = None \<and> disk s2 (sst_path sst) = None)
                     \<and> (\<forall>x \<in> set new_ssts.
                           ssts s2 (sst_id x) = None
                           \<and> (\<forall>l. sst_id x \<notin> set (lvl (level_sst_ids s2) l))
                           \<and> disk s2 (sst_path x) = Some (sst_entries x))
                     \<and> full_compact c s src_level = Ok (compact_register s2 src_level new_ssts)
                     \<and> lvl (level_sst_ids (compact_register s2 src_level new_ssts)) (src_level + 1)
                         = map sst_id new_ssts
                     \<and> (\<forall>x \<in> set new_ssts.
                           ssts (compact_register s2 src_level new_ssts) (sst_id x) = Some x))"
  proof (cases "compact_build c s0 src_level ?X ?Y")
    case (Fail e s')
    from compact_build_fail[OF inv0 Fail] have e: "e = IOFailure" and bo: "build_only s0 s'"
      by simp_all
    from Fail have "compact_level c s0 src_level = Fail e s'"
      by (simp add: compact_level_def Let_def)
    with fc have r: "full_compact c s src_level = Fail e s'" by simp
    from bo have same: "ssts s' = ssts s0" "level_sst_ids s' = level_sst_ids s0"
      by (simp_all add: build_only_def)
    from build_only_view[OF bo] v0 have "\<forall>k. view s' k = view s k" by simp
    with r e same build_only_levels_inv[OF bo inv0] build_only_files_inv[OF bo inv0 fi0] Fail
    show ?thesis by simp
  next
    case (Ok p)
    obtain new s1 where p: "p = (new, s1)" by (cases p)
    with Ok have build: "compact_build c s0 src_level ?X ?Y = Ok (new, s1)" by simp
    from compact_steps[OF inv0 build] obtain s2 where
      bo: "build_only s0 s1"
      and ids: "map sst_id new = [?n ..< ?n + length new]"
      and files: "\<forall>x \<in> set new. sst_path x = get_sst_path (sst_id x) (src_level + 1)
           \<and> disk s1 (sst_path x) = Some (sst_entries x)"
      and rm: "compact_remove_old s1 src_level ?X ?Y = Ok s2"
      and cl: "compact_level c s0 src_level = Ok (compact_register s2 src_level new)"
      and ss2: "ssts s2 = (\<lambda>i. if i \<in> set ?X \<union> set ?Y then None else ssts s0 i)"
      and l2: "\<And>l. lvl (level_sst_ids s2) l =
                 (if l = src_level \<or> l = src_level + 1 then [] else lvl (level_sst_ids s0) l)"
      and d2: "\<And>p. disk s2 p =
                 (if \<exists>i \<in> set ?X \<union> set ?Y. \<exists>sst. ssts s0 i = Some sst \<and> sst_path sst = p
                  then None else disk s1 p)"
      by blast
    from bo have same: "ssts s1 = ssts s0" "level_sst_ids s1 = level_sst_ids s0"
      by (simp_all add: build_only_def)
    from files have files_p: "sst_path x = get_sst_path (sst_id x) (src_level + 1)"
      and files_d: "disk s1 (sst_path x) = Some (sst_entries x)" if "x \<in> set new" for x
      using that by blast+
    have dnew: "distinct (map sst_id new)" and snew: "sorted (map sst_id new)"
      unfolding ids by simp_all
    have new_ge: "?n \<le> sst_id x" if "x \<in> set new" for x
    proof -
      from that have "sst_id x \<in> set (map sst_id new)" by simp
      then show ?thesis unfolding ids by simp
    qed
    have fresh: "ssts s0 (sst_id x) = None" if "x \<in> set new" for x
    proof (cases "ssts s0 (sst_id x)")
      case None
      then show ?thesis .
    next
      case (Some old)
      with fi0 obtain l where "sst_id x \<in> set (lvl (level_sst_ids s0) l)"
        unfolding files_inv_def by blast
      from old_lt[OF this] new_ge[OF that] show ?thesis by simp
    qed
    have a1: "disk s1 (sst_path x) = Some (sst_entries x) \<and> ssts s1 (sst_id x) = None"
      if "x \<in> set new" for x
      using files_d[OF that] fresh[OF that] by (simp add: same)
    have a2: "ssts s2 sid = None \<and> disk s2 (sst_path sst) = None"
      if "sid \<in> set ?X \<union> set ?Y" "ssts s0 sid = Some sst" for sid sst
    proof -
      have "\<exists>i \<in> set ?X \<union> set ?Y. \<exists>o'. ssts s0 i = Some o' \<and> sst_path o' = sst_path sst"
        using that by blast
      then have "disk s2 (sst_path sst) = None" unfolding d2 by (simp only: if_True)
      with that(1) show ?thesis by (simp add: ss2)
    qed
    have a3: "ssts s2 (sst_id x) = None \<and> (\<forall>l. sst_id x \<notin> set (lvl (level_sst_ids s2) l))
        \<and> disk s2 (sst_path x) = Some (sst_entries x)"
      if x: "x \<in> set new" for x
    proof -
      have r1: "ssts s2 (sst_id x) = None" using fresh[OF x] by (simp add: ss2)
      have r2: "sst_id x \<notin> set (lvl (level_sst_ids s2) l)" for l
        using old_lt[of "sst_id x" l] new_ge[OF x] by (auto simp: l2 split: if_splits)
      have "\<not> (\<exists>i \<in> set ?X \<union> set ?Y. \<exists>o'. ssts s0 i = Some o' \<and> sst_path o' = sst_path x)"
      proof
        assume "\<exists>i \<in> set ?X \<union> set ?Y. \<exists>o'. ssts s0 i = Some o' \<and> sst_path o' = sst_path x"
        then obtain i o' where i: "i \<in> set ?X \<union> set ?Y" "ssts s0 i = Some o'"
          "sst_path o' = sst_path x"
          by blast
        from i(1) obtain l where l: "i \<in> set (lvl (level_sst_ids s0) l)" by auto
        with fi0 i(2) have "sst_path o' = get_sst_path i l" unfolding files_inv_def by blast
        with i(3) files_p[OF x] have "i = sst_id x" by (simp add: get_sst_path_def)
        with old_lt[OF l] new_ge[OF x] show False by simp
      qed
      then have "disk s2 (sst_path x) = disk s1 (sst_path x)" unfolding d2 by (simp only: if_False)
      with files_d[OF x] r1 r2 show ?thesis by simp
    qed
    have e2: "lvl (level_sst_ids s2) (src_level + 1) = []" by (simp add: l2)
    from compact_register_effect[OF dnew snew e2]
    have eff: "\<And>l. lvl (level_sst_ids (compact_register s2 src_level new)) l =
          (if l = src_level + 1 then map sst_id new else lvl (level_sst_ids s2) l)"
      "\<And>i. ssts (compact_register s2 src_level new) i =
          (case find (\<lambda>x. sst_id x = i) new of Some x \<Rightarrow> Some x | None \<Rightarrow> ssts s2 i)"
      by blast+
    have a4: "lvl (level_sst_ids (compact_register s2 src_level new)) (src_level + 1)
        = map sst_id new"
      by (simp add: eff(1))
    have a5: "ssts (compact_register s2 src_level new) (sst_id x) = Some x" if "x \<in> set new" for x
      using find_id_Some[OF dnew that] by (simp add: eff(2))
    from cl fc have a6: "full_compact c s src_level = Ok (compact_register s2 src_level new)"
      by simp
    have "\<exists>s2. compact_remove_old s1 src_level ?X ?Y = Ok s2
                     \<and> (\<forall>sid \<in> set ?X \<union> set ?Y.
                          \<forall>sst. ssts s0 sid = Some sst \<longrightarrow>
                            ssts s2 sid = None \<and> disk s2 (sst_path sst) = None)
                     \<and> (\<forall>x \<in> set new.
                           ssts s2 (sst_id x) = None
                           \<and> (\<forall>l. sst_id x \<notin> set (lvl (level_sst_ids s2) l))
                           \<and> disk s2 (sst_path x) = Some (sst_entries x))
                     \<and> full_compact c s src_level = Ok (compact_register s2 src_level new)
                     \<and> lvl (level_sst_ids (compact_register s2 src_level new)) (src_level + 1)
                         = map sst_id new
                     \<and> (\<forall>x \<in> set new.
                           ssts (compact_register s2 src_level new) (sst_id x) = Some x)"
      using rm a2 a3 a4 a5 a6 by blast
    with same build_only_files_inv[OF bo inv0 fi0] a1 build show ?thesis by simp
  qed
  from Ok inv0 fi0 v0 body show ?thesis by simp
qed

lemma flaky_sound: "sound_config flaky_config"
  by (auto simp: sound_config_def flaky_config_def small_config_def example_size_def sl_size_def)

lemma reliable_flaky_sound: "sound_config (reliable flaky_config)"
  by (auto simp: sound_config_def reliable_def flaky_config_def small_config_def example_size_def
      sl_size_def)

lemma nested_engine_levels: "levels_inv nested_engine"
  by (auto simp: levels_inv_def nested_engine_def lvl_def level_ssts_def List.map_filter_simps
      run_ok_def ascending_def example_sst_def split: if_splits)

lemma nested_engine_files: "files_inv nested_engine"
  by (auto simp: files_inv_def nested_engine_def lvl_def example_sst_def get_sst_path_def
      split: if_splits)

theorem full_compact_removes_old_after_build_witness:
  "(case full_compact flaky_config nested_engine 0 of
      Fail e s' \<Rightarrow>
        e = IOFailure
        \<and> lvl (level_sst_ids s') 0 = [5, 4] \<and> lvl (level_sst_ids s') 1 = []
        \<and> lvl (level_sst_ids s') 2 = [6]
        \<and> ssts s' 5 = Some (example_sst 5 0 [(''e'', [])])
        \<and> ssts s' 4 = Some (example_sst 4 0 [(''c'', ''6''), (''f'', ''7'')])
        \<and> disk s' (5, 0) = Some [(''e'', [])]
        \<and> disk s' (4, 0) = Some [(''c'', ''6''), (''f'', ''7'')]
        \<and> disk s' (2, 1) = None \<and> disk s' (3, 1) = None
        \<and> disk s' (6, 2) = Some [(''c'', ''2''), (''d'', ''3''), (''e'', ''4''), (''g'', ''5'')]
        \<and> levels_inv s' \<and> files_inv s' \<and> (\<forall>k. view s' k = view nested_engine k)
    | Ok s' \<Rightarrow> False)
   \<and> (\<exists>new_ssts s2.
        full_compact (reliable flaky_config) nested_engine 0
          = Ok (compact_register s2 0 new_ssts)
        \<and> map sst_id new_ssts = [7]
        \<and> ssts s2 5 = None \<and> disk s2 (5, 0) = None
        \<and> ssts s2 4 = None \<and> disk s2 (4, 0) = None
        \<and> ssts s2 7 = None \<and> (\<forall>l. 7 \<notin> set (lvl (level_sst_ids s2) l))
        \<and> disk s2 (7, 1) = Some [(''c'', ''6''), (''e'', []), (''f'', ''7'')]
        \<and> lvl (level_sst_ids (compact_register s2 0 new_ssts)) 1 = [7]
        \<and> ssts (compact_register s2 0 new_ssts) 7
            = Some (example_sst 7 1 [(''c'', ''6''), (''e'', []), (''f'', ''7'')]))"
proof -
  let ?c = flaky_config and ?r = "reliable flaky_config" and ?s = nested_engine
  have a: "case nested_compact ?c ?s 0 of
      Ok s0 \<Rightarrow>
        (case compact_build ?c s0 0 (lvl (level_sst_ids s0) 0) (lvl (level_sst_ids s0) (0 + 1)) of
           Fail e s' \<Rightarrow>
             lvl (level_sst_ids s') 0 = [5, 4] \<and> lvl (level_sst_ids s') 1 = []
             \<and> lvl (level_sst_ids s') 2 = [6]
             \<and> ssts s' 5 = Some (example_sst 5 0 [(''e'', [])])
             \<and> ssts s' 4 = Some (example_sst 4 0 [(''c'', ''6''), (''f'', ''7'')])
             \<and> disk s' (5, 0) = Some [(''e'', [])]
             \<and> disk s' (4, 0) = Some [(''c'', ''6''), (''f'', ''7'')]
             \<and> disk s' (2, 1) = None \<and> disk s' (3, 1) = None
             \<and> disk s' (6, 2) = Some [(''c'', ''2''), (''d'', ''3''), (''e'', ''4''), (''g'', ''5'')]
         | Ok p \<Rightarrow> False)
    | Fail e s' \<Rightarrow> False"
    by code_simp
  then obtain s0 e s' where n: "nested_compact ?c ?s 0 = Ok s0"
    and b: "compact_build ?c s0 0 (lvl (level_sst_ids s0) 0) (lvl (level_sst_ids s0) (0 + 1))
        = Fail e s'"
    and v: "lvl (level_sst_ids s') 0 = [5, 4]" "lvl (level_sst_ids s') 1 = []"
      "lvl (level_sst_ids s') 2 = [6]"
      "ssts s' 5 = Some (example_sst 5 0 [(''e'', [])])"
      "ssts s' 4 = Some (example_sst 4 0 [(''c'', ''6''), (''f'', ''7'')])"
      "disk s' (5, 0) = Some [(''e'', [])]"
      "disk s' (4, 0) = Some [(''c'', ''6''), (''f'', ''7'')]"
      "disk s' (2, 1) = None" "disk s' (3, 1) = None"
      "disk s' (6, 2) = Some [(''c'', ''2''), (''d'', ''3''), (''e'', ''4''), (''g'', ''5'')]"
    by (auto split: outcome.splits)
  from full_compact_removes_old_after_build[OF flaky_sound nested_engine_levels
      nested_engine_files, of 0]
  have f: "full_compact ?c ?s 0 = Fail e s'" "e = IOFailure" "levels_inv s'" "files_inv s'"
    "\<forall>k. view s' k = view ?s k"
    unfolding n outcome.case b by simp_all
  have g: "case nested_compact ?r ?s 0 of
      Ok s0 \<Rightarrow>
        (case compact_build ?r s0 0 (lvl (level_sst_ids s0) 0) (lvl (level_sst_ids s0) (0 + 1)) of
           Ok (new_ssts, s1) \<Rightarrow>
             new_ssts = [example_sst 7 1 [(''c'', ''6''), (''e'', []), (''f'', ''7'')]]
             \<and> lvl (level_sst_ids s0) 0 = [5, 4] \<and> lvl (level_sst_ids s0) (0 + 1) = []
             \<and> ssts s0 5 = Some (example_sst 5 0 [(''e'', [])])
             \<and> ssts s0 4 = Some (example_sst 4 0 [(''c'', ''6''), (''f'', ''7'')])
         | Fail e s' \<Rightarrow> False)
    | Fail e s' \<Rightarrow> False"
    by code_simp
  define x where "x = example_sst 7 1 [(''c'', ''6''), (''e'', []), (''f'', ''7'')]"
  from g obtain t0 t1 where n': "nested_compact ?r ?s 0 = Ok t0"
    and b': "compact_build ?r t0 0 (lvl (level_sst_ids t0) 0) (lvl (level_sst_ids t0) (0 + 1))
        = Ok ([x], t1)"
    and l': "lvl (level_sst_ids t0) 0 = [5, 4]" "lvl (level_sst_ids t0) (0 + 1) = []"
    and o': "ssts t0 5 = Some (example_sst 5 0 [(''e'', [])])"
      "ssts t0 4 = Some (example_sst 4 0 [(''c'', ''6''), (''f'', ''7'')])"
    unfolding x_def by (auto split: outcome.splits)
  from b' have b'': "compact_build ?r t0 0 [5, 4] [] = Ok ([x], t1)"
    unfolding l' .
  from full_compact_removes_old_after_build[OF reliable_flaky_sound nested_engine_levels
      nested_engine_files, of 0]
  obtain t2 where
    old: "\<forall>sid \<in> set [5, 4] \<union> set []. \<forall>sst. ssts t0 sid = Some sst \<longrightarrow>
            ssts t2 sid = None \<and> disk t2 (sst_path sst) = None"
    and new: "\<forall>y \<in> set [x]. ssts t2 (sst_id y) = None
            \<and> (\<forall>l. sst_id y \<notin> set (lvl (level_sst_ids t2) l))
            \<and> disk t2 (sst_path y) = Some (sst_entries y)"
    and res: "full_compact ?r ?s 0 = Ok (compact_register t2 0 [x])"
    and reg: "lvl (level_sst_ids (compact_register t2 0 [x])) (0 + 1) = map sst_id [x]"
      "\<forall>y \<in> set [x]. ssts (compact_register t2 0 [x]) (sst_id y) = Some y"
    unfolding n' outcome.case l' b'' prod.case by blast
  from old o' have o: "ssts t2 5 = None" "disk t2 (5, 0) = None" "ssts t2 4 = None"
    "disk t2 (4, 0) = None"
    by (auto simp: example_sst_def get_sst_path_def)
  from new have nw: "ssts t2 7 = None" "\<forall>l. 7 \<notin> set (lvl (level_sst_ids t2) l)"
    "disk t2 (7, 1) = Some [(''c'', ''6''), (''e'', []), (''f'', ''7'')]"
    by (simp_all add: x_def example_sst_def get_sst_path_def)
  from reg have rg: "lvl (level_sst_ids (compact_register t2 0 [x])) 1 = [7]"
    "ssts (compact_register t2 0 [x]) 7 = Some x"
    by (simp_all add: x_def example_sst_def)
  have "map sst_id [x] = [7]" by (simp add: x_def example_sst_def)
  with res o nw rg have "\<exists>new_ssts s2.
        full_compact ?r ?s 0 = Ok (compact_register s2 0 new_ssts)
        \<and> map sst_id new_ssts = [7]
        \<and> ssts s2 5 = None \<and> disk s2 (5, 0) = None
        \<and> ssts s2 4 = None \<and> disk s2 (4, 0) = None
        \<and> ssts s2 7 = None \<and> (\<forall>l. 7 \<notin> set (lvl (level_sst_ids s2) l))
        \<and> disk s2 (7, 1) = Some [(''c'', ''6''), (''e'', []), (''f'', ''7'')]
        \<and> lvl (level_sst_ids (compact_register s2 0 new_ssts)) 1 = [7]
        \<and> ssts (compact_register s2 0 new_ssts) 7 = Some x"
    by (intro exI[of _ "[x]"] exI[of _ t2]) simp
  with f v show ?thesis unfolding x_def by simp
qed

lemma good_sound: "good_config c \<Longrightarrow> sound_config c"
  by (simp add: good_config_def sound_config_def)

lemma files_inv_memtable: "files_inv (s\<lparr>memtable := m\<rparr>) = files_inv s"
  by (simp add: files_inv_def)

lemma flush_files:
  assumes good: "good_config c" and inv: "levels_inv s" and fi: "files_inv s"
    and res: "flush c s = Ok s'"
  shows "files_inv s'"
proof (cases "get_total_size (memtable s) = 0")
  case True
  with res fi show ?thesis by (simp add: flush_def)
next
  case False
  let ?pre = "if map_of (level_sst_ids s) 0 \<noteq> None
                  \<and> LSM_SST_LEVEL_RATIO c \<le> length (lvl (level_sst_ids s) 0)
               then full_compact c s 0 else Ok s"
  from res False obtain s1 where pre: "?pre = Ok s1"
    by (cases ?pre) (simp_all add: flush_def)
  have inv1: "levels_inv s1" and fi1: "files_inv s1"
  proof -
    show "levels_inv s1"
      using pre inv full_compact_ok_preserves[OF good_sound[OF good] inv, of 0 s1]
      by (auto split: if_splits)
    show "files_inv s1"
      using pre fi full_compact_files[OF good_sound[OF good] inv fi, of 0 s1]
      by (auto split: if_splits)
  qed
  define n where "n = cur_max_sst_id s1"
  from res False pre obtain new_sst s3 where
    fl: "flush_last c (s1\<lparr>cur_max_sst_id := n + 1\<rparr>) (get_sst_path n 0) n = Ok (new_sst, s3)"
    and s': "s' = s3\<lparr>ssts := (ssts s3)(n \<mapsto> new_sst),
                      level_sst_ids := lvl_set 0 (n # lvl (level_sst_ids s3) 0) (level_sst_ids s3)\<rparr>"
    unfolding flush_def
    by (simp only: if_False outcome.case Let_def n_def[symmetric])
      (auto split: outcome.splits)
  from fl have f3: "ssts s3 = ssts s1" "level_sst_ids s3 = level_sst_ids s1"
    "sst_id new_sst = n" "sst_path new_sst = get_sst_path n 0"
    "disk s3 = (disk s1)(get_sst_path n 0 \<mapsto> sst_entries new_sst)"
    by (auto simp: flush_last_def build_def split: list.splits if_splits)
  have lv: "lvl (level_sst_ids s') l =
      (if l = 0 then n # lvl (level_sst_ids s1) 0 else lvl (level_sst_ids s1) l)" for l
    by (simp add: s' lvl_lvl_set f3)
  have ss: "ssts s' = (ssts s1)(n \<mapsto> new_sst)" by (simp add: s' f3)
  have dk: "disk s' = (disk s1)(get_sst_path n 0 \<mapsto> sst_entries new_sst)" by (simp add: s' f3)
  have old_lt: "sid < n" if "sid \<in> set (lvl (level_sst_ids s1) l)" for sid l
    using inv1 that unfolding levels_inv_def n_def by blast
  have p1: "\<exists>l. sid \<in> set (lvl (level_sst_ids s') l)" if "ssts s' sid = Some sst" for sid sst
  proof (cases "sid = n")
    case True
    then have "sid \<in> set (lvl (level_sst_ids s') 0)" by (simp add: lv)
    then show ?thesis by blast
  next
    case False
    with that have "ssts s1 sid = Some sst" by (simp add: ss)
    with fi1 obtain l where "sid \<in> set (lvl (level_sst_ids s1) l)"
      unfolding files_inv_def by blast
    then have "sid \<in> set (lvl (level_sst_ids s') l)" by (auto simp: lv)
    then show ?thesis by blast
  qed
  have p2: "sst_path sst = get_sst_path sid l \<and> disk s' (sst_path sst) = Some (sst_entries sst)"
    if sid: "sid \<in> set (lvl (level_sst_ids s') l)" and reg: "ssts s' sid = Some sst" for l sid sst
  proof (cases "sid = n")
    case True
    have "l = 0"
    proof (rule ccontr)
      assume "l \<noteq> 0"
      with sid have "sid \<in> set (lvl (level_sst_ids s1) l)" by (simp add: lv)
      from old_lt[OF this] True show False by simp
    qed
    moreover from True reg have "sst = new_sst" by (simp add: ss)
    ultimately show ?thesis using True by (simp add: f3 dk)
  next
    case False
    with sid have old: "sid \<in> set (lvl (level_sst_ids s1) l)" by (auto simp: lv split: if_splits)
    from False reg have r: "ssts s1 sid = Some sst" by (simp add: ss)
    from fi1 old r have f: "sst_path sst = get_sst_path sid l"
      "disk s1 (sst_path sst) = Some (sst_entries sst)"
      unfolding files_inv_def by blast+
    from f(1) False have "sst_path sst \<noteq> get_sst_path n 0" by (simp add: get_sst_path_def)
    with f show ?thesis by (simp add: dk)
  qed
  show ?thesis unfolding files_inv_def using p1 p2 by blast
qed

lemma apply_op_files:
  assumes good: "good_config c" and inv: "engine_inv c s" and fi: "files_inv s"
    and res: "apply_op c s x = Ok s'"
  shows "files_inv s'"
proof (cases x)
  case (Put k v)
  let ?s1 = "s\<lparr>memtable := mt_put c (memtable s) k v\<rparr>"
  from inv have li1: "levels_inv ?s1" by (simp add: engine_inv_def levels_inv_memtable)
  have fi1: "files_inv ?s1" using fi by (simp add: files_inv_memtable)
  show ?thesis
  proof (cases "LSM_TOL_MEM_SIZE_LIMIT c \<le> get_total_size (memtable ?s1)")
    case False
    with res Put fi1 show ?thesis by (simp add: engine_put_def Let_def)
  next
    case True
    with res Put have "flush c ?s1 = Ok s'" by (simp add: engine_put_def Let_def)
    from flush_files[OF good li1 fi1 this] show ?thesis .
  qed
next
  case (Remove k)
  with res fi show ?thesis by (auto simp: engine_remove_def files_inv_memtable)
qed

lemma run_ops_files:
  assumes good: "good_config c"
  shows "engine_inv c s \<Longrightarrow> files_inv s \<Longrightarrow> run_ops c s ops = Ok s' \<Longrightarrow> files_inv s'"
proof (induction ops arbitrary: s)
  case Nil
  then show ?case by simp
next
  case (Cons x ops)
  from apply_op_preserves[OF good Cons.prems(1), of x] obtain s1 where s1: "apply_op c s x = Ok s1"
    "engine_inv c s1"
    by blast
  from apply_op_files[OF good Cons.prems(1,2) s1(1)] have f1: "files_inv s1" .
  from Cons.prems(3) s1(1) have "run_ops c s1 ops = Ok s'" by simp
  from Cons.IH[OF s1(2) f1 this] show ?case .
qed

lemma empty_engine_files: "files_inv empty_engine"
  by (simp add: files_inv_def empty_engine_def lvl_def)

lemma reachable_invariants:
  assumes "good_config c" "run_ops c empty_engine ops = Ok s"
  shows "levels_inv s \<and> files_inv s"
proof -
  from run_ops_preserves[OF assms(1) empty_engine_inv, of ops] assms(2)
  have "levels_inv s" by (auto simp: engine_inv_def)
  moreover from run_ops_files[OF assms(1) empty_engine_inv empty_engine_files assms(2)]
  have "files_inv s" .
  ultimately show ?thesis by simp
qed

end
